theory Spec2Isabelle
  imports Main "HOL-Library.Word" "HOL-Library.Sublist"
begin

section \<open>JavaScript strings\<close>

text \<open>
  A JavaScript string is a sequence of UTF-16 code units, and \<open>length\<close>, \<open>substring\<close>,
  \<open>lastIndexOf\<close> and \<open>includes\<close> all count code units. A string is therefore a list of
  16-bit words. \<open>asc\<close> turns an ASCII literal into such a list; the few non-ASCII characters
  of the source are written by code unit.
\<close>

type_synonym jsstring = "16 word list"

definition asc :: "string \<Rightarrow> jsstring" where
  "asc cs = map of_char cs"

text \<open>Truthiness of a string-or-absent value: \<open>undefined\<close> and \<open>''\<close> are falsy.\<close>

fun truthy :: "jsstring option \<Rightarrow> bool" where
  "truthy None = False"
| "truthy (Some s) = (s \<noteq> [])"

text \<open>\<open>a || b\<close> on string-or-absent values.\<close>

definition js_or :: "jsstring option \<Rightarrow> jsstring option \<Rightarrow> jsstring option" where
  "js_or a b = (if truthy a then a else b)"

text \<open>
  \<open>String.prototype.trim\<close> removes WhiteSpace and LineTerminator code units from both ends
  (ECMA-262: TAB, LF, VT, FF, CR, SP, NBSP, U+1680, U+2000..U+200A, U+2028, U+2029, U+202F,
  U+205F, U+3000, U+FEFF).
\<close>

definition js_space :: "16 word \<Rightarrow> bool" where
  "js_space c \<longleftrightarrow>
     c \<in> {0x09, 0x0A, 0x0B, 0x0C, 0x0D, 0x20, 0xA0, 0x1680, 0x2028, 0x2029, 0x202F,
          0x205F, 0x3000, 0xFEFF} \<or> (0x2000 \<le> c \<and> c \<le> 0x200A)"

definition trim :: "jsstring \<Rightarrow> jsstring" where
  "trim s = rev (dropWhile js_space (rev (dropWhile js_space s)))"

text \<open>\<open>s.substring(0, n)\<close> for \<open>n \<ge> 0\<close>.\<close>

definition substring0 :: "jsstring \<Rightarrow> nat \<Rightarrow> jsstring" where
  "substring0 s n = take n s"

text \<open>
  \<open>s.lastIndexOf(c)\<close> for a one-unit needle: the greatest index holding \<open>c\<close>, or \<open>-1\<close>.
  The scan runs from the left and keeps the last hit.
\<close>

fun lastIndexOf_from :: "jsstring \<Rightarrow> 16 word \<Rightarrow> nat \<Rightarrow> int \<Rightarrow> int" where
  "lastIndexOf_from [] c i found = found"
| "lastIndexOf_from (x # xs) c i found =
     lastIndexOf_from xs c (Suc i) (if x = c then int i else found)"

definition lastIndexOf :: "jsstring \<Rightarrow> 16 word \<Rightarrow> int" where
  "lastIndexOf s c = lastIndexOf_from s c 0 (- 1)"

text \<open>\<open>s.includes(t)\<close>: \<open>t\<close> occurs in \<open>s\<close> as a contiguous run of code units.\<close>

definition js_includes :: "jsstring \<Rightarrow> jsstring \<Rightarrow> bool" where
  "js_includes s t = sublist t s"

section \<open>Regular-expression replacements of the normalizer\<close>

text \<open>
  \<open>content.replace(/<[^>]*>/g, '')\<close>. At a \<open><\<close> the class \<open>[^>]*\<close> runs to the next
  \<open>>\<close> (it also accepts \<open><\<close> and line breaks); the match succeeds iff such a \<open>>\<close> exists, and
  the scan resumes behind it. Where nothing matches the code unit is kept.
\<close>

definition LT :: "16 word" where "LT = 0x3C"
definition GT :: "16 word" where "GT = 0x3E"
definition SP :: "16 word" where "SP = 0x20"

function stripTags :: "jsstring \<Rightarrow> jsstring" where
  "stripTags [] = []"
| "stripTags (c # cs) =
     (if c = LT \<and> GT \<in> set cs then stripTags (tl (dropWhile (\<lambda>x. x \<noteq> GT) cs))
      else c # stripTags cs)"
  by pat_completeness auto
termination
proof (relation "measure length")
  fix c :: "16 word" and cs :: jsstring
  have "length (tl (dropWhile (\<lambda>x. x \<noteq> GT) cs)) \<le> length cs"
    using length_dropWhile_le [of "\<lambda>x. x \<noteq> GT" cs] by simp
  then show "(tl (dropWhile (\<lambda>x. x \<noteq> GT) cs), c # cs) \<in> measure length"
    by simp
qed simp_all

text \<open>
  Matching under the \<open>i\<close> flag (without \<open>u\<close>) compares canonicalised code units. Every
  pattern character of the source is ASCII, and a code unit from 128 on never canonicalises
  to an ASCII one, so a code unit matches a pattern character iff they agree after folding
  \<open>a..z\<close> to \<open>A..Z\<close>.
\<close>

definition canon :: "16 word \<Rightarrow> 16 word" where
  "canon c = (if 0x61 \<le> c \<and> c \<le> 0x7A then c - 0x20 else c)"

fun ci_prefix :: "jsstring \<Rightarrow> jsstring \<Rightarrow> bool" where
  "ci_prefix [] s = True"
| "ci_prefix (p # ps) [] = False"
| "ci_prefix (p # ps) (c # cs) = (canon p = canon c \<and> ci_prefix ps cs)"

text \<open>\<open>\w\<close> is \<open>[A-Za-z0-9_]\<close>; \<open>\b\<close> behind the letter that ends the tag name holds
  iff no word character follows.\<close>

definition word_char :: "16 word \<Rightarrow> bool" where
  "word_char c \<longleftrightarrow>
     (0x41 \<le> c \<and> c \<le> 0x5A) \<or> (0x61 \<le> c \<and> c \<le> 0x7A) \<or> (0x30 \<le> c \<and> c \<le> 0x39) \<or> c = 0x5F"

definition boundary :: "jsstring \<Rightarrow> bool" where
  "boundary r = (case r of [] \<Rightarrow> True | c # _ \<Rightarrow> \<not> word_char c)"

text \<open>
  The tail \<open>(?:(?!<\/tag>)<[^<]*)*<\/tag>\<close> of the block patterns, entered behind a run of
  \<open>[^<]*\<close>, so at a \<open><\<close> or at the end of the input. At a \<open><\<close> that opens the closing tag
  the group cannot iterate (negative lookahead) and the closing tag matches; at any other
  \<open><\<close> the group takes it together with the following run of non-\<open><\<close> units; at the end
  of the input the match fails, and backtracking cannot rescue it, since every earlier
  position is either a non-\<open><\<close> unit or a \<open><\<close> that the lookahead found not to open the
  closing tag. The result is the input behind the match.
\<close>

function blockTail :: "jsstring \<Rightarrow> jsstring \<Rightarrow> jsstring option" where
  "blockTail close [] = None"
| "blockTail close (c # cs) =
     (if ci_prefix close (c # cs) then Some (drop (length close) (c # cs))
      else if c = LT then blockTail close (dropWhile (\<lambda>x. x \<noteq> LT) cs)
      else None)"
  by pat_completeness auto
termination
proof (relation "measure (\<lambda>(close, s). length s)")
  fix close :: jsstring and c :: "16 word" and cs :: jsstring
  show "((close, dropWhile (\<lambda>x. x \<noteq> LT) cs), (close, c # cs)) \<in> measure (\<lambda>(close, s). length s)"
    using length_dropWhile_le [of "\<lambda>x. x \<noteq> LT" cs] by simp
qed simp

text \<open>
  One attempt of \<open>/<tag\b[^<]*(?:(?!<\/tag>)<[^<]*)*<\/tag>/i\<close> at the start of \<open>s\<close>:
  the opening \<open><tag\<close>, the word boundary, the run \<open>[^<]*\<close>, then the tail.
\<close>

definition matchBlock :: "jsstring \<Rightarrow> jsstring \<Rightarrow> jsstring \<Rightarrow> jsstring option" where
  "matchBlock opn close s =
     (if ci_prefix opn s \<and> boundary (drop (length opn) s)
      then blockTail close (dropWhile (\<lambda>x. x \<noteq> LT) (drop (length opn) s))
      else None)"

lemma blockTail_shorter: "blockTail close s = Some r \<Longrightarrow> close \<noteq> [] \<Longrightarrow> length r < length s"
proof (induction close s rule: blockTail.induct)
  case (1 close)
  then show ?case by simp
next
  case (2 close c cs)
  show ?case
  proof (cases "ci_prefix close (c # cs)")
    case True
    with 2 show ?thesis by (cases close) auto
  next
    case False
    with 2 have lt: "c = LT" and rec: "blockTail close (dropWhile (\<lambda>x. x \<noteq> LT) cs) = Some r"
      by (auto split: if_splits)
    from 2 False lt rec have "length r < length (dropWhile (\<lambda>x. x \<noteq> LT) cs)" by simp
    moreover have "length (dropWhile (\<lambda>x. x \<noteq> LT) cs) \<le> length cs"
      by (rule length_dropWhile_le)
    ultimately show ?thesis by simp
  qed
qed

lemma matchBlock_shorter:
  "matchBlock opn close s = Some r \<Longrightarrow> close \<noteq> [] \<Longrightarrow> length r < length s"
proof -
  assume m: "matchBlock opn close s = Some r" and ne: "close \<noteq> []"
  then have "blockTail close (dropWhile (\<lambda>x. x \<noteq> LT) (drop (length opn) s)) = Some r"
    by (auto simp: matchBlock_def split: if_splits)
  then have "length r < length (dropWhile (\<lambda>x. x \<noteq> LT) (drop (length opn) s))"
    using ne by (rule blockTail_shorter)
  also have "\<dots> \<le> length (drop (length opn) s)" by (rule length_dropWhile_le)
  also have "\<dots> \<le> length s" by simp
  finally show ?thesis .
qed

text \<open>
  \<open>s.replace(/<tag\b...<\/tag>/gi, '')\<close>: the leftmost match is cut out and the scan goes on
  behind it; where no match starts, the code unit is kept. An empty closing tag never
  occurs; the guard only makes the recursion total.
\<close>

function removeBlocks :: "jsstring \<Rightarrow> jsstring \<Rightarrow> jsstring \<Rightarrow> jsstring" where
  "removeBlocks opn close [] = []"
| "removeBlocks opn close (c # cs) =
     (case (if close = [] then None else matchBlock opn close (c # cs)) of
        Some r \<Rightarrow> removeBlocks opn close r
      | None \<Rightarrow> c # removeBlocks opn close cs)"
  by pat_completeness auto
termination
proof (relation "measure (\<lambda>(opn, close, s). length s)")
  fix opn close :: jsstring and c :: "16 word" and cs r :: jsstring
  assume "(if close = [] then None else matchBlock opn close (c # cs)) = Some r"
  then have "matchBlock opn close (c # cs) = Some r" and "close \<noteq> []"
    by (auto split: if_splits)
  then have "length r < length (c # cs)" by (rule matchBlock_shorter)
  then show "((opn, close, r), (opn, close, c # cs)) \<in> measure (\<lambda>(opn, close, s). length s)"
    by simp
qed simp_all

text \<open>
  \<open>/<!--[\s\S]*?-->/g\<close>: behind \<open><!--\<close> the lazy \<open>[\s\S]*?\<close> stops at the first
  \<open>-->\<close>.
\<close>

fun commentTail :: "jsstring \<Rightarrow> jsstring option" where
  "commentTail [] = None"
| "commentTail (c # cs) =
     (if prefix (asc ''-->'') (c # cs) then Some (drop 3 (c # cs)) else commentTail cs)"

definition matchComment :: "jsstring \<Rightarrow> jsstring option" where
  "matchComment s = (if prefix (asc ''<!--'') s then commentTail (drop 4 s) else None)"

lemma commentTail_shorter: "commentTail s = Some r \<Longrightarrow> length r < length s"
  by (induction s) (auto split: if_splits)

lemma matchComment_shorter: "matchComment s = Some r \<Longrightarrow> length r < length s"
proof -
  assume "matchComment s = Some r"
  then have "commentTail (drop 4 s) = Some r"
    by (auto simp: matchComment_def split: if_splits)
  then have "length r < length (drop 4 s)" by (rule commentTail_shorter)
  then show ?thesis by simp
qed

function removeComments :: "jsstring \<Rightarrow> jsstring" where
  "removeComments [] = []"
| "removeComments (c # cs) =
     (case matchComment (c # cs) of
        Some r \<Rightarrow> removeComments r
      | None \<Rightarrow> c # removeComments cs)"
  by pat_completeness auto
termination
proof (relation "measure length")
  fix c :: "16 word" and cs r :: jsstring
  assume "matchComment (c # cs) = Some r"
  then have "length r < length (c # cs)" by (rule matchComment_shorter)
  then show "(r, c # cs) \<in> measure length" by simp
qed simp_all

section \<open>Content normalizer\<close>

text \<open>The two placeholder texts; their accented letters are U+00E0 and U+00E9.\<close>

definition contenuAVenir :: jsstring where
  "contenuAVenir = asc ''Contenu '' @ [0xE0] @ asc '' venir''"

definition resumeAVenir :: jsstring where
  "resumeAVenir = asc ''R'' @ [0xE9] @ asc ''sum'' @ [0xE9] @ asc '' '' @ [0xE0] @ asc '' venir''"

definition ellipsis :: jsstring where
  "ellipsis = asc ''...''"

definition cleanContent :: "jsstring option \<Rightarrow> jsstring" where
  "cleanContent content =
     (if \<not> truthy content then contenuAVenir
      else trim (removeComments
             (removeBlocks (asc ''<style'') (asc ''</style>'')
               (removeBlocks (asc ''<script'') (asc ''</script>'') (the content)))))"

definition extractSummary :: "jsstring option \<Rightarrow> jsstring" where
  "extractSummary content =
     (if \<not> truthy content then resumeAVenir
      else let textContent = trim (stripTags (the content)) in
        if length textContent \<le> 200 then textContent
        else let truncated = substring0 textContent 200;
                 lastSpace = lastIndexOf truncated SP
             in if lastSpace > 150 then substring0 truncated (nat lastSpace) @ ellipsis
                else truncated @ ellipsis)"

definition cities :: "jsstring list" where
  "cities =
     [asc ''Paris'', asc ''Lyon'', asc ''Marseille'', asc ''Toulouse'', asc ''Nice'',
      asc ''Nantes'', asc ''Strasbourg'', asc ''Montpellier'', asc ''Bordeaux'', asc ''Lille'',
      asc ''Rennes'', asc ''Reims'', asc ''Le Havre'', asc ''Saint-'' @ [0xC9] @ asc ''tienne'',
      asc ''Toulon'', asc ''Angers'', asc ''Grenoble'', asc ''Dijon'',
      asc ''N'' @ [0xEE] @ asc ''mes'', asc ''Aix-en-Provence'']"

text \<open>The \<open>for (const city of cities)\<close> loop with its early return.\<close>

fun firstCity :: "jsstring list \<Rightarrow> jsstring \<Rightarrow> jsstring option" where
  "firstCity [] textContent = None"
| "firstCity (city # rest) textContent =
     (if js_includes textContent city then Some city else firstCity rest textContent)"

definition extractCity :: "jsstring option \<Rightarrow> jsstring option" where
  "extractCity content =
     (if \<not> truthy content then None
      else firstCity cities (stripTags (the content)))"

section \<open>Data model\<close>

text \<open>A feed descriptor of \<open>this.sources\<close>: \<open>{url, type, establishmentType}\<close>.\<close>

record source =
  src_url :: jsstring
  src_type :: jsstring
  src_establishmentType :: jsstring

text \<open>
  A raw item of \<open>rssData.items\<close>, with the fields the service reads. A field that may be
  missing is an option; \<open>a_enclosure_link\<close> is \<open>article.enclosure.link\<close>, absent when
  the enclosure or its link is.
\<close>

record article =
  a_title :: "jsstring option"
  a_link :: jsstring
  a_pubDate :: "jsstring option"
  a_content :: "jsstring option"
  a_description :: "jsstring option"
  a_thumbnail :: "jsstring option"
  a_enclosure_link :: "jsstring option"

text \<open>\<open>firebase.firestore.FieldValue.serverTimestamp()\<close>, a sentinel the store replaces.\<close>

datatype fieldValue = ServerTimestamp

text \<open>
  The object \<open>newsData\<close> written to the collection \<open>news\<close>. \<open>n_publishedAt\<close> is
  \<open>new Date(article.pubDate)\<close>, carried as its argument, since the constructor never
  raises.
\<close>

record news =
  n_title :: jsstring
  n_content :: jsstring
  n_summary :: jsstring
  n_url :: jsstring
  n_type :: jsstring
  n_establishmentType :: jsstring
  n_status :: jsstring
  n_featured :: bool
  n_author :: jsstring
  n_source :: jsstring
  n_publishedAt :: "jsstring option"
  n_createdAt :: fieldValue
  n_timestamp :: fieldValue
  n_views :: nat
  n_tags :: "jsstring list"
  n_syncedAt :: fieldValue
  n_imageUrl :: "jsstring option"
  n_city :: "jsstring option"

text \<open>
  Exceptions: the two \<open>new Error(...)\<close> of \<open>syncSource\<close>, the \<open>TypeError\<close> of reading a
  property of \<open>undefined\<close>, the \<open>URIError\<close> of \<open>encodeURIComponent\<close>, and an error raised by a collaborator (\<open>fetch\<close>,
  \<open>response.json()\<close>, the store, \<open>loadNews\<close>) with its message.
\<close>

datatype js_error =
    HttpError nat
  | RssError "jsstring option"
  | TypeError
  | URIError
  | Thrown jsstring

text \<open>
  The messages handed to \<open>log\<close>, one constructor for each template of the source, holding
  the interpolated values; \<open>MsgText\<close> is any other text a caller passes.
\<close>

datatype message =
    MsgAlreadyRunning
  | MsgGlobalStart
  | MsgSourceStart jsstring
  | MsgGlobalDone nat nat
  | MsgGlobalError js_error
  | MsgFetching jsstring
  | MsgFound nat jsstring
  | MsgArticleError "jsstring option" js_error
  | MsgSourceDone jsstring nat nat
  | MsgSourceError jsstring js_error
  | MsgArticleAdded jsstring
  | MsgProcessError js_error
  | MsgLogsCleared
  | MsgText jsstring

datatype severity = Info | Success | Warning | Error

record logEntry =
  timestamp :: jsstring
  message :: message
  entry_type :: severity

text \<open>The calls the service makes to its collaborators, in the order they are made.\<close>

datatype call = Fetch jsstring | DbGet jsstring | DbAdd news | LoadNews

text \<open>\<open>rssData\<close>, the body of the feed API's answer.\<close>

record rssData =
  rss_status :: jsstring
  rss_message :: "jsstring option"
  rss_items :: "article list option"

text \<open>
  What \<open>await fetch(...)\<close> gives: a rejection, or a response with \<open>ok\<close>, \<open>status\<close> and
  the outcome of \<open>response.json()\<close>.
\<close>

datatype fetch_reply =
    FetchRejected js_error
  | Response bool nat "js_error + rssData"

text \<open>
  The collaborators. Each answer may depend on the moment of the call, counted as the
  number of collaborator calls made before it: \<open>fetch\<close> answers a feed URL, \<open>db_get\<close> and
  \<open>db_add\<close> tell whether the query or the insertion is rejected, \<open>loadNews\<close> is the
  optional global function with its outcome, \<open>now\<close> is the clock read by \<open>log\<close>.
\<close>

record env =
  fetch :: "nat \<Rightarrow> jsstring \<Rightarrow> fetch_reply"
  db_get :: "nat \<Rightarrow> jsstring \<Rightarrow> js_error option"
  db_add :: "nat \<Rightarrow> news \<Rightarrow> js_error option"
  loadNews :: "js_error option option"
  now :: "nat \<Rightarrow> jsstring"

text \<open>
  The fields of the service object, the collection \<open>news\<close> of the store, and the calls
  made so far. Console output and the status panel written by \<open>updateUI\<close> (which swallows
  its own errors) are not part of the state.
\<close>

record state =
  sources :: "source list"
  logs :: "logEntry list"
  isRunning :: bool
  news_store :: "news list"
  calls :: "call list"

text \<open>The two feeds of the constructor, and the state it builds around a given store.\<close>

definition source_hotel :: source where
  "source_hotel =
     \<lparr>src_url = asc ''https://larevuedeshotels.com/feed'', src_type = asc ''hotel'',
      src_establishmentType = asc ''hotels''\<rparr>"

definition source_restaurant :: source where
  "source_restaurant =
     \<lparr>src_url = asc ''https://larevuedesrestaurants.com/feed'', src_type = asc ''restaurant'',
      src_establishmentType = asc ''restaurants''\<rparr>"

definition constructor :: "news list \<Rightarrow> state" where
  "constructor db =
     \<lparr>sources = [source_hotel, source_restaurant],
      logs = [], isRunning = False, news_store = db, calls = []\<rparr>"

section \<open>Event log\<close>

text \<open>\<open>log\<close>: \<open>unshift\<close> the entry, then \<open>pop\<close> once if more than 100 are held.\<close>

definition log :: "env \<Rightarrow> message \<Rightarrow> severity \<Rightarrow> state \<Rightarrow> state" where
  "log env msg ty s =
     (let logEntry = \<lparr>timestamp = now env (length (calls s)), message = msg, entry_type = ty\<rparr>;
          unshifted = logEntry # logs s
      in s\<lparr>logs := (if length unshifted > 100 then butlast unshifted else unshifted)\<rparr>)"

text \<open>
  \<open>getLogs(limit = 50)\<close> is \<open>this.logs.slice(0, limit)\<close>: a negative end counts from the
  end of the array.
\<close>

definition getLogs :: "int option \<Rightarrow> state \<Rightarrow> logEntry list" where
  "getLogs limit s =
     (let l = (case limit of None \<Rightarrow> 50 | Some n \<Rightarrow> n);
          len = int (length (logs s));
          e = (if l < 0 then max (len + l) 0 else min l len)
      in take (nat e) (logs s))"

definition clearLogs :: "env \<Rightarrow> state \<Rightarrow> state" where
  "clearLogs env s = log env MsgLogsCleared Info (s\<lparr>logs := []\<rparr>)"

section \<open>Synchronisation\<close>

text \<open>
  The record built by \<open>processArticle\<close> between the lookup and the insertion.
  \<open>article.title.trim()\<close> raises a \<open>TypeError\<close> when the title is missing; nothing else
  in these lines can raise.
\<close>

definition buildNewsData :: "article \<Rightarrow> source \<Rightarrow> js_error + news" where
  "buildNewsData a src =
     (let cleaned = cleanContent (js_or (a_content a) (a_description a));
          summary = extractSummary (js_or (a_description a) (Some cleaned))
      in case a_title a of
           None \<Rightarrow> Inl TypeError
         | Some t \<Rightarrow>
             Inr \<lparr>n_title = trim t,
                  n_content = cleaned,
                  n_summary = summary,
                  n_url = a_link a,
                  n_type = src_type src,
                  n_establishmentType = src_establishmentType src,
                  n_status = asc ''published'',
                  n_featured = False,
                  n_author = asc ''La Revue'',
                  n_source = src_url src,
                  n_publishedAt = a_pubDate a,
                  n_createdAt = ServerTimestamp,
                  n_timestamp = ServerTimestamp,
                  n_views = 0,
                  n_tags = [asc ''actualit'' @ [0xE9], src_type src, asc ''wordpress''],
                  n_syncedAt = ServerTimestamp,
                  n_imageUrl =
                    (if truthy (a_thumbnail a) then a_thumbnail a
                     else if truthy (a_enclosure_link a) then a_enclosure_link a
                     else None),
                  n_city = extractCity (Some cleaned)\<rparr>)"

text \<open>
  \<open>processArticle\<close>: the lookup by \<open>url\<close> comes first and returns \<open>false\<close> when a record
  is found; otherwise the record is built and inserted. Every exception is logged and
  thrown again.
\<close>

definition processArticle :: "env \<Rightarrow> article \<Rightarrow> source \<Rightarrow> state \<Rightarrow> (js_error + bool) \<times> state" where
  "processArticle env a src s =
     (let s1 = s\<lparr>calls := calls s @ [DbGet (a_link a)]\<rparr> in
      case db_get env (length (calls s)) (a_link a) of
        Some e \<Rightarrow> (Inl e, log env (MsgProcessError e) Error s1)
      | None \<Rightarrow>
          if list_ex (\<lambda>d. n_url d = a_link a) (news_store s1) then (Inr False, s1)
          else
            (case buildNewsData a src of
               Inl e \<Rightarrow> (Inl e, log env (MsgProcessError e) Error s1)
             | Inr newsData \<Rightarrow>
                 let s2 = s1\<lparr>calls := calls s1 @ [DbAdd newsData]\<rparr> in
                 (case db_add env (length (calls s1)) newsData of
                    Some e \<Rightarrow> (Inl e, log env (MsgProcessError e) Error s2)
                  | None \<Rightarrow>
                      (Inr True,
                       log env (MsgArticleAdded (substring0 (the (a_title a)) 50)) Success
                         (s2\<lparr>news_store := news_store s2 @ [newsData]\<rparr>)))))"

text \<open>The loop of \<open>syncSource\<close> over \<open>rssData.items\<close>, with the counters \<open>(added, processed)\<close>.\<close>

fun syncItems :: "env \<Rightarrow> source \<Rightarrow> article list \<Rightarrow> nat \<times> nat \<Rightarrow> state \<Rightarrow> (nat \<times> nat) \<times> state" where
  "syncItems env src [] counters s = (counters, s)"
| "syncItems env src (a # rest) (added, processed) s =
     (case processArticle env a src s of
        (Inr wasAdded, s1) \<Rightarrow>
          syncItems env src rest ((if wasAdded then added + 1 else added), processed + 1) s1
      | (Inl e, s1) \<Rightarrow>
          syncItems env src rest (added, processed)
            (log env (MsgArticleError (a_title a) e) Error s1))"

text \<open>
  \<open>encodeURIComponent(s)\<close> raises a \<open>URIError\<close> exactly when \<open>s\<close> holds an unpaired
  surrogate: a low surrogate (U+DC00..U+DFFF) with no high surrogate before it, or a high
  surrogate (U+D800..U+DBFF) with no low surrogate behind it. The scan goes code point by
  code point, a pair counting as one. The encoded text only fills the template of the
  request address; the request is recorded under the feed url it asks for.
\<close>

definition high_surrogate :: "16 word \<Rightarrow> bool" where
  "high_surrogate c \<longleftrightarrow> 0xD800 \<le> c \<and> c \<le> 0xDBFF"

definition low_surrogate :: "16 word \<Rightarrow> bool" where
  "low_surrogate c \<longleftrightarrow> 0xDC00 \<le> c \<and> c \<le> 0xDFFF"

fun encodeURIComponent_throws :: "jsstring \<Rightarrow> bool" where
  "encodeURIComponent_throws [] = False"
| "encodeURIComponent_throws (c # cs) =
     (if low_surrogate c then True
      else if high_surrogate c then
        (case cs of
           [] \<Rightarrow> True
         | d # ds \<Rightarrow> if low_surrogate d then encodeURIComponent_throws ds else True)
      else encodeURIComponent_throws cs)"

text \<open>
  \<open>syncSource\<close>. Building the request address comes first inside the \<open>try\<close>: when
  \<open>encodeURIComponent\<close> raises, nothing has been logged or fetched yet. \<open>failed\<close> is the
  outer \<open>catch\<close>, which logs and throws again.
\<close>

definition syncSource :: "env \<Rightarrow> source \<Rightarrow> state \<Rightarrow> (js_error + nat \<times> nat) \<times> state" where
  "syncSource env src s =
     (if encodeURIComponent_throws (src_url src)
      then (Inl URIError, log env (MsgSourceError (src_type src) URIError) Error s)
      else
        let s1 = log env (MsgFetching (src_type src)) Info s;
            s2 = s1\<lparr>calls := calls s1 @ [Fetch (src_url src)]\<rparr>;
            failed = (\<lambda>e. (Inl e, log env (MsgSourceError (src_type src) e) Error s2))
        in case fetch env (length (calls s1)) (src_url src) of
             FetchRejected e \<Rightarrow> failed e
           | Response ok status body \<Rightarrow>
               if \<not> ok then failed (HttpError status)
               else
                 (case body of
                    Inl e \<Rightarrow> failed e
                  | Inr rss \<Rightarrow>
                      if rss_status rss \<noteq> asc ''ok'' then failed (RssError (rss_message rss))
                      else
                        (case rss_items rss of
                           None \<Rightarrow> failed TypeError
                         | Some items \<Rightarrow>
                             let s3 = log env (MsgFound (length items) (src_type src)) Info s2;
                                 (counters, s4) = syncItems env src items (0, 0) s3;
                                 s5 = log env (MsgSourceDone (src_type src) (fst counters)
                                        (snd counters)) Info s4
                             in (Inr counters, s5))))"

text \<open>The loop of \<open>syncAll\<close> over \<open>this.sources\<close>, with the totals.\<close>

fun syncSources :: "env \<Rightarrow> source list \<Rightarrow> nat \<times> nat \<Rightarrow> state \<Rightarrow> (js_error + nat \<times> nat) \<times> state" where
  "syncSources env [] totals s = (Inr totals, s)"
| "syncSources env (src # rest) (totalAdded, totalProcessed) s =
     (case syncSource env src (log env (MsgSourceStart (src_url src)) Info s) of
        (Inl e, s1) \<Rightarrow> (Inl e, s1)
      | (Inr (added, processed), s1) \<Rightarrow>
          syncSources env rest (totalAdded + added, totalProcessed + processed) s1)"

text \<open>
  \<open>syncAll\<close>. \<open>Inr None\<close> is the bare \<open>return\<close> of the guard; \<open>caught\<close> is the \<open>catch\<close>
  followed by the \<open>finally\<close>.
\<close>

definition syncAll :: "env \<Rightarrow> state \<Rightarrow> (js_error + (nat \<times> nat) option) \<times> state" where
  "syncAll env s =
     (if isRunning s then (Inr None, log env MsgAlreadyRunning Warning s)
      else
        let s1 = log env MsgGlobalStart Info (s\<lparr>isRunning := True\<rparr>);
            caught = (\<lambda>e st. (Inl e, (log env (MsgGlobalError e) Error st)\<lparr>isRunning := False\<rparr>))
        in case syncSources env (sources s1) (0, 0) s1 of
             (Inl e, s2) \<Rightarrow> caught e s2
           | (Inr totals, s2) \<Rightarrow>
               let s3 = log env (MsgGlobalDone (fst totals) (snd totals)) Success s2 in
               (case loadNews env of
                  None \<Rightarrow> (Inr (Some totals), s3\<lparr>isRunning := False\<rparr>)
                | Some outcome \<Rightarrow>
                    let s4 = s3\<lparr>calls := calls s3 @ [LoadNews]\<rparr> in
                    (case outcome of
                       Some e \<Rightarrow> caught e s4
                     | None \<Rightarrow> (Inr (Some totals), s4\<lparr>isRunning := False\<rparr>))))"

section \<open>Outcome of a fetch\<close>

text \<open>
  What \<open>syncSource\<close> makes of the answer to its fetch, read off its \<open>throw\<close> statements:
  the exception it raises (rejected fetch, response not \<open>ok\<close>, unreadable body, status
  other than \<open>'ok'\<close>, missing \<open>items\<close>), or the items it goes on to process.
\<close>

fun fetch_outcome :: "fetch_reply \<Rightarrow> js_error + article list" where
  "fetch_outcome (FetchRejected e) = Inl e"
| "fetch_outcome (Response ok status body) =
     (if \<not> ok then Inl (HttpError status)
      else case body of
             Inl e \<Rightarrow> Inl e
           | Inr rss \<Rightarrow>
               if rss_status rss \<noteq> asc ''ok'' then Inl (RssError (rss_message rss))
               else (case rss_items rss of None \<Rightarrow> Inl TypeError | Some items \<Rightarrow> Inr items))"

text \<open>The state of \<open>syncSource\<close> once its fetch has been issued.\<close>

definition fetching :: "env \<Rightarrow> source \<Rightarrow> state \<Rightarrow> state" where
  "fetching env src s =
     (log env (MsgFetching (src_type src)) Info s)\<lparr>calls := calls s @ [Fetch (src_url src)]\<rparr>"

text \<open>
  What \<open>syncSource\<close> makes of its request as a whole: the \<open>URIError\<close> of the address,
  or the outcome of the fetch; and the state once the request stage is over, which holds
  the fetch only if the address could be built.
\<close>

definition request_outcome :: "env \<Rightarrow> source \<Rightarrow> state \<Rightarrow> js_error + article list" where
  "request_outcome env src s =
     (if encodeURIComponent_throws (src_url src) then Inl URIError
      else fetch_outcome (fetch env (length (calls s)) (src_url src)))"

definition requesting :: "env \<Rightarrow> source \<Rightarrow> state \<Rightarrow> state" where
  "requesting env src s =
     (if encodeURIComponent_throws (src_url src) then s else fetching env src s)"

section \<open>Notions used to state the claims about items\<close>

text \<open>
  The per-item order as the specification words it: map, then check the gate, then
  persist. It is \<open>processArticle\<close> with the building of the record moved in front of the
  lookup, and serves only for comparison with the source's order.
\<close>

definition processArticle_mapFirst :: "env \<Rightarrow> article \<Rightarrow> source \<Rightarrow> state \<Rightarrow> (js_error + bool) \<times> state" where
  "processArticle_mapFirst env a src s =
     (case buildNewsData a src of
        Inl e \<Rightarrow> (Inl e, log env (MsgProcessError e) Error s)
      | Inr newsData \<Rightarrow>
          let s1 = s\<lparr>calls := calls s @ [DbGet (a_link a)]\<rparr> in
          (case db_get env (length (calls s)) (a_link a) of
             Some e \<Rightarrow> (Inl e, log env (MsgProcessError e) Error s1)
           | None \<Rightarrow>
               if list_ex (\<lambda>d. n_url d = a_link a) (news_store s1) then (Inr False, s1)
               else
                 let s2 = s1\<lparr>calls := calls s1 @ [DbAdd newsData]\<rparr> in
                 (case db_add env (length (calls s1)) newsData of
                    Some e \<Rightarrow> (Inl e, log env (MsgProcessError e) Error s2)
                  | None \<Rightarrow>
                      (Inr True,
                       log env (MsgArticleAdded (substring0 (the (a_title a)) 50)) Success
                         (s2\<lparr>news_store := news_store s2 @ [newsData]\<rparr>)))))"

text \<open>
  The outcomes of the calls of \<open>processArticle\<close> that the loop of \<open>syncSource\<close> makes,
  in order: \<open>Inr wasAdded\<close> for a normal return, \<open>Inl e\<close> for an exception. The state is
  threaded exactly as in \<open>syncItems\<close>.
\<close>

fun attempts :: "env \<Rightarrow> source \<Rightarrow> article list \<Rightarrow> state \<Rightarrow> (js_error + bool) list" where
  "attempts env src [] s = []"
| "attempts env src (a # rest) s =
     (case processArticle env a src s of
        (Inr wasAdded, s1) \<Rightarrow> Inr wasAdded # attempts env src rest s1
      | (Inl e, s1) \<Rightarrow>
          Inl e # attempts env src rest (log env (MsgArticleError (a_title a) e) Error s1))"

section \<open>Size of a feed\<close>

text \<open>
  The items a reply to a fetch carries (none when \<open>syncSource\<close> raises on it), and the
  number of items that a fixed feed holds for a list of sources.
\<close>

definition fetched_items :: "fetch_reply \<Rightarrow> article list" where
  "fetched_items r = (case fetch_outcome r of Inl e \<Rightarrow> [] | Inr items \<Rightarrow> items)"

definition feed_size :: "(jsstring \<Rightarrow> fetch_reply) \<Rightarrow> source list \<Rightarrow> nat" where
  "feed_size feed srcs = sum_list (map (\<lambda>src. length (fetched_items (feed (src_url src)))) srcs)"

section \<open>Blocks as tag pairs\<close>

text \<open>
  The specification's reading of a block, for comparison with the regular expressions of
  the source: a block starts at an opening tag (the tag name in any letter case, not
  followed by a word character) and ends with the nearest closing tag behind it.
  \<open>firstClosing\<close> searches the closing tag unit by unit and gives the input behind it;
  \<open>removeTagPairs\<close> cuts out every such block, from left to right.
\<close>

fun firstClosing :: "jsstring \<Rightarrow> jsstring \<Rightarrow> jsstring option" where
  "firstClosing close [] = None"
| "firstClosing close (c # cs) =
     (if ci_prefix close (c # cs) then Some (drop (length close) (c # cs))
      else firstClosing close cs)"

definition tagPairAt :: "jsstring \<Rightarrow> jsstring \<Rightarrow> jsstring \<Rightarrow> jsstring option" where
  "tagPairAt opn close s =
     (if ci_prefix opn s \<and> boundary (drop (length opn) s)
      then firstClosing close (drop (length opn) s)
      else None)"

text \<open>\<open>ci_occurs p s\<close>: the text \<open>p\<close> occurs somewhere in \<open>s\<close>, in any letter case.\<close>

fun ci_occurs :: "jsstring \<Rightarrow> jsstring \<Rightarrow> bool" where
  "ci_occurs p [] = ci_prefix p []"
| "ci_occurs p (c # cs) = (ci_prefix p (c # cs) \<or> ci_occurs p cs)"

lemma firstClosing_shorter:
  "firstClosing close s = Some r \<Longrightarrow> close \<noteq> [] \<Longrightarrow> length r < length s"
proof (induction s)
  case Nil
  then show ?case by simp
next
  case (Cons c cs)
  show ?case
  proof (cases "ci_prefix close (c # cs)")
    case True
    with Cons.prems show ?thesis by (cases close) auto
  next
    case False
    with Cons show ?thesis by auto
  qed
qed

lemma tagPairAt_shorter:
  "tagPairAt opn close s = Some r \<Longrightarrow> close \<noteq> [] \<Longrightarrow> length r < length s"
proof -
  assume m: "tagPairAt opn close s = Some r" and ne: "close \<noteq> []"
  then have "firstClosing close (drop (length opn) s) = Some r"
    by (auto simp: tagPairAt_def split: if_splits)
  then have "length r < length (drop (length opn) s)" using ne by (rule firstClosing_shorter)
  then show ?thesis by simp
qed

function removeTagPairs :: "jsstring \<Rightarrow> jsstring \<Rightarrow> jsstring \<Rightarrow> jsstring" where
  "removeTagPairs opn close [] = []"
| "removeTagPairs opn close (c # cs) =
     (case (if close = [] then None else tagPairAt opn close (c # cs)) of
        Some r \<Rightarrow> removeTagPairs opn close r
      | None \<Rightarrow> c # removeTagPairs opn close cs)"
  by pat_completeness auto
termination
proof (relation "measure (\<lambda>(opn, close, s). length s)")
  fix opn close :: jsstring and c :: "16 word" and cs r :: jsstring
  assume "(if close = [] then None else tagPairAt opn close (c # cs)) = Some r"
  then have "tagPairAt opn close (c # cs) = Some r" and "close \<noteq> []"
    by (auto split: if_splits)
  then have "length r < length (c # cs)" by (rule tagPairAt_shorter)
  then show "((opn, close, r), (opn, close, c # cs)) \<in> measure (\<lambda>(opn, close, s). length s)"
    by simp
qed simp_all







section \<open>Sequences of event-log operations\<close>

text \<open>
  The three operations a caller has on the event log: \<open>log\<close> (record), \<open>getLogs\<close>
  (query, a read that leaves the state alone) and \<open>clearLogs\<close>; \<open>run_log_ops\<close> applies
  a sequence of them.
\<close>

datatype log_op = Record message severity | Query "int option" | Clear

fun apply_log_op :: "env \<Rightarrow> log_op \<Rightarrow> state \<Rightarrow> state" where
  "apply_log_op env (Record m ty) s = log env m ty s"
| "apply_log_op env (Query limit) s = s"
| "apply_log_op env Clear s = clearLogs env s"

fun run_log_ops :: "env \<Rightarrow> log_op list \<Rightarrow> state \<Rightarrow> state" where
  "run_log_ops env [] s = s"
| "run_log_ops env (op # ops) s = run_log_ops env ops (apply_log_op env op s)"

text \<open>
  What the claim calls the most recent entries, newest first: every entry recorded since
  the last clear, in front of the entries \<open>h\<close> held before, with no bound on the length.
\<close>

fun history :: "env \<Rightarrow> nat \<Rightarrow> log_op list \<Rightarrow> logEntry list \<Rightarrow> logEntry list" where
  "history env t [] h = h"
| "history env t (Record m ty # ops) h =
     history env t ops (\<lparr>timestamp = now env t, message = m, entry_type = ty\<rparr> # h)"
| "history env t (Query limit # ops) h = history env t ops h"
| "history env t (Clear # ops) h =
     history env t ops [\<lparr>timestamp = now env t, message = MsgLogsCleared, entry_type = Info\<rparr>]"


section \<open>Concrete collaborators and inputs\<close>

text \<open>A world in which every fetch is rejected and the store never fails.\<close>

definition env_offline :: env where
  "env_offline =
     \<lparr>fetch = (\<lambda>t u. FetchRejected (Thrown (asc ''offline''))),
      db_get = (\<lambda>t u. None), db_add = (\<lambda>t n. None), loadNews = None,
      now = (\<lambda>t. asc ''t'')\<rparr>"

text \<open>
  A world in which the hotel feed holds three items and the other feed none, and nothing
  fails. The first item is the one of the specification's scenario; the second has no
  title, so building its record raises.
\<close>

definition item1 :: article where
  "item1 = \<lparr>a_title = Some (asc '' Hello ''), a_link = asc ''https://example.com/a1'',
             a_pubDate = None, a_content = Some (asc ''<p>Hi</p><script>evil()</script>''),
             a_description = None, a_thumbnail = None, a_enclosure_link = None\<rparr>"

definition item2 :: article where
  "item2 = \<lparr>a_title = None, a_link = asc ''https://example.com/a2'',
             a_pubDate = None, a_content = None,
             a_description = None, a_thumbnail = None, a_enclosure_link = None\<rparr>"

definition item3 :: article where
  "item3 = \<lparr>a_title = Some (asc ''Lyon''), a_link = asc ''https://example.com/a3'',
             a_pubDate = None, a_content = None,
             a_description = Some (asc ''A Lyon''), a_thumbnail = None, a_enclosure_link = None\<rparr>"

definition env_feed :: env where
  "env_feed =
     \<lparr>fetch = (\<lambda>t u. Response True 200
                  (Inr \<lparr>rss_status = asc ''ok'', rss_message = None,
                        rss_items = Some (if u = src_url source_hotel then [item1, item2, item3] else [])\<rparr>)),
      db_get = (\<lambda>t u. None), db_add = (\<lambda>t n. None), loadNews = None,
      now = (\<lambda>t. asc ''t'')\<rparr>"

text \<open>A record already stored under the link of the first item, and an item with that
  link and no title.\<close>

definition stored_a1 :: news where
  "stored_a1 =
     \<lparr>n_title = asc ''Hello'', n_content = asc ''<p>Hi</p>'', n_summary = asc ''Hi'',
      n_url = asc ''https://example.com/a1'', n_type = asc ''hotel'',
      n_establishmentType = asc ''hotels'', n_status = asc ''published'', n_featured = False,
      n_author = asc ''La Revue'', n_source = asc ''https://larevuedeshotels.com/feed'',
      n_publishedAt = None, n_createdAt = ServerTimestamp, n_timestamp = ServerTimestamp,
      n_views = 0, n_tags = [asc ''actualit'' @ [0xE9], asc ''hotel'', asc ''wordpress''],
      n_syncedAt = ServerTimestamp, n_imageUrl = None, n_city = None\<rparr>"

definition item_untitled :: article where
  "item_untitled =
     \<lparr>a_title = None, a_link = asc ''https://example.com/a1'', a_pubDate = None,
      a_content = None, a_description = None, a_thumbnail = None, a_enclosure_link = None\<rparr>"

text \<open>
  A feed with the single item of the scenario for the hotel source, a world that serves it
  without failure, and one that serves it while the store rejects every insertion.
\<close>

definition feed_one :: "jsstring \<Rightarrow> fetch_reply" where
  "feed_one u =
     Response True 200
       (Inr \<lparr>rss_status = asc ''ok'', rss_message = None,
             rss_items = Some (if u = src_url source_hotel then [item1] else [])\<rparr>)"

definition env_one :: env where
  "env_one =
     \<lparr>fetch = (\<lambda>t. feed_one), db_get = (\<lambda>t u. None), db_add = (\<lambda>t n. None), loadNews = None,
      now = (\<lambda>t. asc ''t'')\<rparr>"

definition env_flaky :: env where
  "env_flaky = env_one\<lparr>db_add := (\<lambda>t n. Some (Thrown (asc ''unavailable'')))\<rparr>"

text \<open>
  Two plain texts of 221 code units, all \<open>A\<close> but one: the first has a space at index
  160, the second a tab at index 180.
\<close>

definition text_with_space :: jsstring where
  "text_with_space = replicate 160 0x41 @ [0x20] @ replicate 60 0x41"

definition text_with_tab :: jsstring where
  "text_with_tab = replicate 180 0x41 @ [0x09] @ replicate 40 0x41"

text \<open>A source descriptor whose url is the single unpaired surrogate U+D800.\<close>

definition source_unpaired :: source where
  "source_unpaired =
     \<lparr>src_url = [0xD800], src_type = asc ''hotel'', src_establishmentType = asc ''hotels''\<rparr>"

definition ops_example :: "log_op list" where
  "ops_example = [Record (MsgText (asc ''a'')) Info, Clear, Query None, Record (MsgText (asc ''b'')) Error]"

section \<open>Facts about the event log\<close>

lemma log_simps:
  "sources (log env m t s) = sources s"
  "isRunning (log env m t s) = isRunning s"
  "news_store (log env m t s) = news_store s"
  "calls (log env m t s) = calls s"
  by (simp_all add: log_def Let_def)

lemma logs_log:
  "logs (log env m t s) =
     (if 100 \<le> length (logs s)
      then \<lparr>timestamp = now env (length (calls s)), message = m, entry_type = t\<rparr> # butlast (logs s)
      else \<lparr>timestamp = now env (length (calls s)), message = m, entry_type = t\<rparr> # logs s)"
  by (cases "logs s = []") (auto simp: log_def Let_def)

section \<open>Single-flight rejection\<close>

text \<open>
  Claim C2. When \<open>isRunning\<close> is set, \<open>syncAll\<close> raises nothing and returns no totals
  (the bare \<open>return\<close>); the state it leaves is the one it found, flag, store, sources and
  the list of collaborator calls included, except that the event log has received exactly
  one entry, the warning \<open>MsgAlreadyRunning\<close>, at its front. No fetch and no store call is
  made.
\<close>

theorem syncAll_single_flight:
  assumes "isRunning s"
  shows "syncAll env s =
           (Inr None,
            s\<lparr>logs :=
                (let e = \<lparr>timestamp = now env (length (calls s)), message = MsgAlreadyRunning,
                          entry_type = Warning\<rparr>
                 in if 100 \<le> length (logs s) then e # butlast (logs s) else e # logs s)\<rparr>)"
proof -
  have "log env MsgAlreadyRunning Warning s =
          s\<lparr>logs :=
              (let e = \<lparr>timestamp = now env (length (calls s)), message = MsgAlreadyRunning,
                        entry_type = Warning\<rparr>
               in if 100 \<le> length (logs s) then e # butlast (logs s) else e # logs s)\<rparr>"
    by (cases "logs s = []") (auto simp: log_def Let_def)
  with assms show ?thesis by (simp add: syncAll_def)
qed

theorem syncAll_single_flight_witness:
  "isRunning ((constructor [])\<lparr>isRunning := True\<rparr>)
   \<and> fst (syncAll env_offline ((constructor [])\<lparr>isRunning := True\<rparr>)) = Inr None
   \<and> calls (snd (syncAll env_offline ((constructor [])\<lparr>isRunning := True\<rparr>))) = []
   \<and> isRunning (snd (syncAll env_offline ((constructor [])\<lparr>isRunning := True\<rparr>)))
   \<and> map message (logs (snd (syncAll env_offline ((constructor [])\<lparr>isRunning := True\<rparr>))))
       = [MsgAlreadyRunning]"
  using syncAll_single_flight [of "(constructor [])\<lparr>isRunning := True\<rparr>" env_offline]
  by (simp add: constructor_def Let_def)

section \<open>Ring buffer of the event log\<close>

lemma logs_log_take:
  "length (logs s) \<le> 100 \<Longrightarrow>
   logs (log env m t s) =
     take 100 (\<lparr>timestamp = now env (length (calls s)), message = m, entry_type = t\<rparr> # logs s)"
proof -
  assume le: "length (logs s) \<le> 100"
  let ?e = "\<lparr>timestamp = now env (length (calls s)), message = m, entry_type = t\<rparr>"
  show ?thesis
  proof (cases "length (logs s) = 100")
    case True
    then have "butlast (logs s) = take 99 (logs s)" by (simp add: butlast_conv_take)
    with True show ?thesis by (simp add: logs_log)
  next
    case False
    with le have "length (logs s) \<le> 99" by simp
    then show ?thesis by (simp add: logs_log)
  qed
qed

lemma take_history: "take n (history env t ops h) = take n (history env t ops (take n h))"
proof (induction ops arbitrary: h)
  case Nil
  then show ?case by simp
next
  case (Cons op ops)
  show ?case
  proof (cases op)
    case (Record m ty)
    let ?e = "\<lparr>timestamp = now env t, message = m, entry_type = ty\<rparr>"
    have "take n (?e # take n h) = take n (?e # h)"
      by (cases n) (simp_all add: min_def)
    then show ?thesis
      using Cons.IH [of "?e # h"] Cons.IH [of "?e # take n h"] Record by simp
  next
    case (Query l)
    then show ?thesis using Cons.IH [of h] by simp
  next
    case Clear
    then show ?thesis by simp
  qed
qed

lemma apply_log_op_calls: "calls (apply_log_op env op s) = calls s"
  by (cases op) (simp_all add: log_simps clearLogs_def)

lemma run_log_ops_take:
  "length (logs s) \<le> 100 \<Longrightarrow>
   logs (run_log_ops env ops s) = take 100 (history env (length (calls s)) ops (logs s))"
proof (induction ops arbitrary: s)
  case Nil
  then show ?case by simp
next
  case (Cons op ops)
  let ?s1 = "apply_log_op env op s"
  have c: "calls ?s1 = calls s" by (rule apply_log_op_calls)
  show ?case
  proof (cases op)
    case (Record m ty)
    let ?e = "\<lparr>timestamp = now env (length (calls s)), message = m, entry_type = ty\<rparr>"
    have l1: "logs ?s1 = take 100 (?e # logs s)"
      using Cons.prems Record by (simp add: logs_log_take)
    then have "length (logs ?s1) \<le> 100" by simp
    then have "logs (run_log_ops env ops ?s1) = take 100 (history env (length (calls s)) ops (logs ?s1))"
      using Cons.IH [of ?s1] c by simp
    also have "\<dots> = take 100 (history env (length (calls s)) ops (?e # logs s))"
      using take_history [of 100 env "length (calls s)" ops "?e # logs s"] l1 by simp
    finally show ?thesis using Record by simp
  next
    case (Query l)
    then show ?thesis using Cons.IH [of s] Cons.prems by simp
  next
    case Clear
    let ?e = "\<lparr>timestamp = now env (length (calls s)), message = MsgLogsCleared, entry_type = Info\<rparr>"
    have l1: "logs ?s1 = [?e]"
      using Clear by (simp add: clearLogs_def log_def Let_def)
    then have "logs (run_log_ops env ops ?s1) = take 100 (history env (length (calls s)) ops [?e])"
      using Cons.IH [of ?s1] c by simp
    then show ?thesis using Clear by simp
  qed
qed

text \<open>
  Claim C9. \<open>log\<close> puts the new entry at the front and, when 100 entries are already
  held, drops exactly the last (oldest) one. Hence, from any buffer of at most 100 entries,
  and in particular from the empty buffer of a new service, any sequence of record, query
  and clear operations leaves at most 100 entries: the first 100 of the entries recorded
  since the last clear, newest first.
\<close>

theorem event_log_ring_buffer:
  "logs (log env m ty s) =
     (if 100 \<le> length (logs s)
      then \<lparr>timestamp = now env (length (calls s)), message = m, entry_type = ty\<rparr> # butlast (logs s)
      else \<lparr>timestamp = now env (length (calls s)), message = m, entry_type = ty\<rparr> # logs s)
   \<and> (length (logs s) \<le> 100 \<longrightarrow>
        length (logs (run_log_ops env ops s)) \<le> 100
        \<and> logs (run_log_ops env ops s) = take 100 (history env (length (calls s)) ops (logs s)))
   \<and> logs (run_log_ops env ops (constructor db)) = take 100 (history env 0 ops [])"
proof (intro conjI impI)
  show "logs (log env m ty s) =
     (if 100 \<le> length (logs s)
      then \<lparr>timestamp = now env (length (calls s)), message = m, entry_type = ty\<rparr> # butlast (logs s)
      else \<lparr>timestamp = now env (length (calls s)), message = m, entry_type = ty\<rparr> # logs s)"
    by (rule logs_log)
next
  assume a: "length (logs s) \<le> 100"
  then show "logs (run_log_ops env ops s) = take 100 (history env (length (calls s)) ops (logs s))"
    by (rule run_log_ops_take)
  then show "length (logs (run_log_ops env ops s)) \<le> 100" by simp
next
  have "length (logs (constructor db)) \<le> 100" by (simp add: constructor_def)
  then have "logs (run_log_ops env ops (constructor db)) =
      take 100 (history env (length (calls (constructor db))) ops (logs (constructor db)))"
    by (rule run_log_ops_take)
  then show "logs (run_log_ops env ops (constructor db)) = take 100 (history env 0 ops [])"
    by (simp add: constructor_def)
qed

theorem event_log_ring_buffer_witness:
  "length (logs (constructor [])) \<le> 100
   \<and> map message (logs (run_log_ops env_offline ops_example (constructor [])))
       = [MsgText (asc ''b''), MsgLogsCleared]"
  using event_log_ring_buffer [of env_offline MsgGlobalStart Info "constructor []" ops_example "[]"]
  by (simp add: constructor_def ops_example_def)

section \<open>Facts about the synchronisation loops\<close>

lemma log_isRunning_update:
  "log env m t (s\<lparr>isRunning := b\<rparr>) = (log env m t s)\<lparr>isRunning := b\<rparr>"
  by (simp add: log_def Let_def)

lemma processArticle_isRunning_update:
  "processArticle env a src (s\<lparr>isRunning := b\<rparr>) =
     (fst (processArticle env a src s), (snd (processArticle env a src s))\<lparr>isRunning := b\<rparr>)"
  by (simp add: processArticle_def Let_def log_def split: option.split sum.split)

lemma syncItems_isRunning_update:
  "syncItems env src items cnt (s\<lparr>isRunning := b\<rparr>) =
     (fst (syncItems env src items cnt s), (snd (syncItems env src items cnt s))\<lparr>isRunning := b\<rparr>)"
proof (induction items arbitrary: cnt s)
  case Nil
  then show ?case by simp
next
  case (Cons a items)
  obtain added processed where cnt: "cnt = (added, processed)" by (cases cnt)
  obtain r s1 where p: "processArticle env a src s = (r, s1)" by (cases "processArticle env a src s")
  then have p': "processArticle env a src (s\<lparr>isRunning := b\<rparr>) = (r, s1\<lparr>isRunning := b\<rparr>)"
    by (simp add: processArticle_isRunning_update)
  show ?case
  proof (cases r)
    case (Inl e)
    then show ?thesis
      using cnt p p' Cons.IH [of "(added, processed)" "log env (MsgArticleError (a_title a) e) Error s1"]
      by (simp add: log_isRunning_update)
  next
    case (Inr wasAdded)
    then show ?thesis
      using cnt p p' Cons.IH [of _ s1] by simp
  qed
qed

lemma syncSource_isRunning_update:
  "syncSource env src (s\<lparr>isRunning := b\<rparr>) =
     (fst (syncSource env src s), (snd (syncSource env src s))\<lparr>isRunning := b\<rparr>)"
proof -
  let ?sb = "s\<lparr>isRunning := b\<rparr>"
  have l1: "log env (MsgFetching (src_type src)) Info ?sb =
            (log env (MsgFetching (src_type src)) Info s)\<lparr>isRunning := b\<rparr>"
    by (rule log_isRunning_update)
  have upd: "\<And>st c. (st\<lparr>isRunning := b\<rparr>)\<lparr>calls := c\<rparr> = (st\<lparr>calls := c\<rparr>)\<lparr>isRunning := b\<rparr>"
    by simp
  show ?thesis
    unfolding syncSource_def Let_def l1 upd log_isRunning_update
    by (simp add: log_simps syncItems_isRunning_update log_isRunning_update
           split: fetch_reply.split sum.split option.split prod.split
           del: state.update_convs)
qed

lemma processArticle_calls:
  "\<exists>rest. calls (snd (processArticle env a src s)) = calls s @ rest"
  by (simp add: processArticle_def Let_def log_simps split: option.split sum.split)

lemma syncItems_calls:
  "\<exists>rest. calls (snd (syncItems env src items cnt s)) = calls s @ rest"
proof (induction items arbitrary: cnt s)
  case Nil
  then show ?case by simp
next
  case (Cons a items)
  obtain added processed where cnt: "cnt = (added, processed)" by (cases cnt)
  obtain r s1 where p: "processArticle env a src s = (r, s1)" by (cases "processArticle env a src s")
  from processArticle_calls [of env a src s] p obtain r1 where r1: "calls s1 = calls s @ r1" by auto
  show ?case
  proof (cases r)
    case (Inl e)
    from Cons.IH [of "(added, processed)" "log env (MsgArticleError (a_title a) e) Error s1"]
    obtain r2 where "calls (snd (syncItems env src items (added, processed)
        (log env (MsgArticleError (a_title a) e) Error s1))) = calls s1 @ r2"
      by (auto simp: log_simps)
    then show ?thesis using cnt p Inl r1 by simp
  next
    case (Inr wasAdded)
    from Cons.IH [of "(if wasAdded then added + 1 else added, processed + 1)" s1]
    obtain r2 where "calls (snd (syncItems env src items
        (if wasAdded then added + 1 else added, processed + 1) s1)) = calls s1 @ r2"
      by auto
    then show ?thesis using cnt p Inr r1 by simp
  qed
qed

lemma fetching_simps:
  "sources (fetching env src s) = sources s"
  "isRunning (fetching env src s) = isRunning s"
  "news_store (fetching env src s) = news_store s"
  "calls (fetching env src s) = calls s @ [Fetch (src_url src)]"
  by (simp_all add: fetching_def log_simps)

lemma requesting_simps:
  "sources (requesting env src s) = sources s"
  "isRunning (requesting env src s) = isRunning s"
  "news_store (requesting env src s) = news_store s"
  "calls (requesting env src s) =
     calls s @ (if encodeURIComponent_throws (src_url src) then [] else [Fetch (src_url src)])"
  by (simp_all add: requesting_def fetching_simps)

lemma request_outcome_Inr:
  "request_outcome env src s = Inr items \<Longrightarrow>
   \<not> encodeURIComponent_throws (src_url src)
   \<and> fetch_outcome (fetch env (length (calls s)) (src_url src)) = Inr items"
  by (simp add: request_outcome_def split: if_splits)

lemma syncSource_throws:
  assumes "encodeURIComponent_throws (src_url src)"
  shows "syncSource env src s =
           (Inl URIError, log env (MsgSourceError (src_type src) URIError) Error s)"
  using assms by (simp add: syncSource_def)

lemma syncSource_Inl:
  assumes "request_outcome env src s = Inl e"
  shows "syncSource env src s =
           (Inl e, log env (MsgSourceError (src_type src) e) Error (requesting env src s))"
proof (cases "encodeURIComponent_throws (src_url src)")
  case True
  with assms have "e = URIError" by (simp add: request_outcome_def)
  with True show ?thesis by (simp add: syncSource_throws requesting_def)
next
  case False
  with assms have "fetch_outcome (fetch env (length (calls s)) (src_url src)) = Inl e"
    by (simp add: request_outcome_def)
  with False show ?thesis
    by (cases "fetch env (length (calls s)) (src_url src)")
       (auto simp: syncSource_def requesting_def fetching_def Let_def log_simps
             split: sum.splits option.splits if_splits)
qed

lemma syncSource_Inr:
  assumes "request_outcome env src s = Inr items"
  shows "syncSource env src s =
           (let s3 = log env (MsgFound (length items) (src_type src)) Info (fetching env src s);
                r = syncItems env src items (0, 0) s3
            in (Inr (fst r),
                log env (MsgSourceDone (src_type src) (fst (fst r)) (snd (fst r))) Info (snd r)))"
proof -
  from assms have ok: "\<not> encodeURIComponent_throws (src_url src)"
    and out: "fetch_outcome (fetch env (length (calls s)) (src_url src)) = Inr items"
    by (simp_all add: request_outcome_Inr)
  from ok out show ?thesis
    by (cases "fetch env (length (calls s)) (src_url src)")
       (auto simp: syncSource_def fetching_def Let_def log_simps
             split: sum.splits option.splits if_splits prod.splits)
qed

lemma syncSource_calls:
  assumes "\<not> encodeURIComponent_throws (src_url src)"
  shows "\<exists>rest. calls (snd (syncSource env src s)) = calls s @ Fetch (src_url src) # rest"
proof (cases "request_outcome env src s")
  case (Inl e)
  then show ?thesis using assms by (simp add: syncSource_Inl log_simps requesting_simps)
next
  case (Inr items)
  let ?s3 = "log env (MsgFound (length items) (src_type src)) Info (fetching env src s)"
  from syncItems_calls [of env src items "(0, 0)" ?s3]
  obtain rest where "calls (snd (syncItems env src items (0, 0) ?s3)) = calls ?s3 @ rest" by auto
  then show ?thesis using Inr by (simp add: syncSource_Inr log_simps fetching_simps Let_def)
qed

section \<open>Evaluation on the three-item feed\<close>

lemma hotel_url_encodes: "\<not> encodeURIComponent_throws (src_url source_hotel)"
  by (simp add: source_hotel_def asc_def low_surrogate_def high_surrogate_def)

lemma restaurant_url_encodes: "\<not> encodeURIComponent_throws (src_url source_restaurant)"
  by (simp add: source_restaurant_def asc_def low_surrogate_def high_surrogate_def)

lemma syncSource_feed_eval:
  "fst (syncSource env_feed source_hotel (constructor [])) = Inr (2, 2)
   \<and> map n_url (news_store (snd (syncSource env_feed source_hotel (constructor []))))
       = [asc ''https://example.com/a1'', asc ''https://example.com/a3'']"
  by (simp add: syncSource_def env_feed_def source_hotel_def constructor_def Let_def log_def
     processArticle_def item1_def item2_def item3_def buildNewsData_def js_or_def asc_def
     low_surrogate_def high_surrogate_def)

section \<open>The flag and \<open>syncSource\<close>\<close>

text \<open>
  Claim C10, as stated, fails for a source whose url \<open>encodeURIComponent\<close> rejects: for
  the url made of the single unpaired surrogate U+D800 the call raises \<open>URIError\<close> while
  building the request address, so it does not proceed to fetch or persist; no call to a
  collaborator is made.
\<close>

theorem syncSource_fetch_counterexample:
  "syncSource env_feed source_unpaired (constructor []) =
     (Inl URIError,
      log env_feed (MsgSourceError (src_type source_unpaired) URIError) Error (constructor []))
   \<and> calls (snd (syncSource env_feed source_unpaired (constructor []))) = []
   \<and> news_store (snd (syncSource env_feed source_unpaired (constructor []))) = []"
proof -
  have "encodeURIComponent_throws (src_url source_unpaired)"
    by (simp add: source_unpaired_def low_surrogate_def high_surrogate_def)
  then have "syncSource env_feed source_unpaired (constructor []) =
     (Inl URIError,
      log env_feed (MsgSourceError (src_type source_unpaired) URIError) Error (constructor []))"
    by (rule syncSource_throws)
  then show ?thesis by (simp add: log_simps constructor_def)
qed

text \<open>
  Claim C10, amended. The course of \<open>syncSource\<close> does not depend on \<open>isRunning\<close> and
  the call never sets it: whatever the flag holds, the call returns the same result and
  leaves the same state, with the flag as it was (the flag is tested by the guard of
  \<open>syncAll\<close> alone; \<open>updateUI\<close> merely displays it). For a source whose url
  \<open>encodeURIComponent\<close> accepts, the call always issues its fetch, the first call it
  makes, and goes on to process the items. For a url with an unpaired surrogate it raises
  \<open>URIError\<close> with no call made and the store untouched, again whatever the flag holds.
  The guarantee of \<open>syncAll\<close> therefore does not extend to a direct call of
  \<open>syncSource\<close>.
\<close>

theorem syncSource_ignores_isRunning:
  "syncSource env src (s\<lparr>isRunning := b\<rparr>) =
     (fst (syncSource env src s), (snd (syncSource env src s))\<lparr>isRunning := b\<rparr>)
   \<and> isRunning (snd (syncSource env src s)) = isRunning s
   \<and> (\<not> encodeURIComponent_throws (src_url src) \<longrightarrow>
        (\<exists>rest. calls (snd (syncSource env src s)) = calls s @ Fetch (src_url src) # rest))
   \<and> (encodeURIComponent_throws (src_url src) \<longrightarrow>
        fst (syncSource env src s) = Inl URIError
        \<and> calls (snd (syncSource env src s)) = calls s
        \<and> news_store (snd (syncSource env src s)) = news_store s)"
proof (intro conjI impI)
  show "syncSource env src (s\<lparr>isRunning := b\<rparr>) =
     (fst (syncSource env src s), (snd (syncSource env src s))\<lparr>isRunning := b\<rparr>)"
    by (rule syncSource_isRunning_update)
  have same: "s\<lparr>isRunning := isRunning s\<rparr> = s" by simp
  have "syncSource env src s =
     (fst (syncSource env src s), (snd (syncSource env src s))\<lparr>isRunning := isRunning s\<rparr>)"
    using syncSource_isRunning_update [where s = s and b = "isRunning s" and env = env and src = src]
    by (simp only: same)
  then have "snd (syncSource env src s) =
     snd (fst (syncSource env src s), (snd (syncSource env src s))\<lparr>isRunning := isRunning s\<rparr>)"
    by (rule arg_cong)
  then have "snd (syncSource env src s) = (snd (syncSource env src s))\<lparr>isRunning := isRunning s\<rparr>"
    by (simp only: snd_conv)
  then have "isRunning (snd (syncSource env src s)) =
             isRunning ((snd (syncSource env src s))\<lparr>isRunning := isRunning s\<rparr>)"
    by (rule arg_cong)
  then show "isRunning (snd (syncSource env src s)) = isRunning s" by simp
next
  assume "\<not> encodeURIComponent_throws (src_url src)"
  then show "\<exists>rest. calls (snd (syncSource env src s)) = calls s @ Fetch (src_url src) # rest"
    by (rule syncSource_calls)
next
  assume t: "encodeURIComponent_throws (src_url src)"
  then show "fst (syncSource env src s) = Inl URIError" by (simp add: syncSource_throws)
  from t show "calls (snd (syncSource env src s)) = calls s"
    by (simp add: syncSource_throws log_simps)
  from t show "news_store (snd (syncSource env src s)) = news_store s"
    by (simp add: syncSource_throws log_simps)
qed

theorem syncSource_ignores_isRunning_witness:
  "\<not> encodeURIComponent_throws (src_url source_hotel)
   \<and> fst (syncSource env_feed source_hotel ((constructor [])\<lparr>isRunning := True\<rparr>)) = Inr (2, 2)
   \<and> isRunning (snd (syncSource env_feed source_hotel ((constructor [])\<lparr>isRunning := True\<rparr>)))
   \<and> map n_url (news_store (snd (syncSource env_feed source_hotel ((constructor [])\<lparr>isRunning := True\<rparr>))))
       = [asc ''https://example.com/a1'', asc ''https://example.com/a3'']
   \<and> (\<exists>rest. calls (snd (syncSource env_feed source_hotel (constructor [])))
         = calls (constructor []) @ Fetch (src_url source_hotel) # rest)
   \<and> encodeURIComponent_throws (src_url source_unpaired)
   \<and> fst (syncSource env_feed source_unpaired ((constructor [])\<lparr>isRunning := True\<rparr>)) = Inl URIError"
proof -
  have ok: "\<not> encodeURIComponent_throws (src_url source_hotel)" by (rule hotel_url_encodes)
  have bad: "encodeURIComponent_throws (src_url source_unpaired)"
    by (simp add: source_unpaired_def low_surrogate_def high_surrogate_def)
  from syncSource_ignores_isRunning [where env = env_feed and src = source_hotel and b = True
          and s = "constructor []"] ok syncSource_feed_eval
  have 1: "fst (syncSource env_feed source_hotel ((constructor [])\<lparr>isRunning := True\<rparr>)) = Inr (2, 2)
   \<and> isRunning (snd (syncSource env_feed source_hotel ((constructor [])\<lparr>isRunning := True\<rparr>)))
   \<and> map n_url (news_store (snd (syncSource env_feed source_hotel ((constructor [])\<lparr>isRunning := True\<rparr>))))
       = [asc ''https://example.com/a1'', asc ''https://example.com/a3'']
   \<and> (\<exists>rest. calls (snd (syncSource env_feed source_hotel (constructor [])))
         = calls (constructor []) @ Fetch (src_url source_hotel) # rest)"
    by simp
  from syncSource_ignores_isRunning [where env = env_feed and src = source_unpaired and b = True
          and s = "(constructor [])\<lparr>isRunning := True\<rparr>"] bad
  have 2: "fst (syncSource env_feed source_unpaired ((constructor [])\<lparr>isRunning := True\<rparr>)) = Inl URIError"
    by simp
  from ok bad 1 2 show ?thesis by simp
qed

section \<open>A failing fetch aborts the run\<close>

lemma syncSources_append:
  "syncSources env (pre @ rest) totals s =
     (case syncSources env pre totals s of
        (Inl e, s1) \<Rightarrow> (Inl e, s1)
      | (Inr totals1, s1) \<Rightarrow> syncSources env rest totals1 s1)"
proof (induction pre arbitrary: totals s)
  case Nil
  then show ?case by simp
next
  case (Cons src pre)
  obtain ta tp where t: "totals = (ta, tp)" by (cases totals)
  show ?case
    using Cons.IH t
    by (simp split: prod.split sum.split)
qed

lemma syncSources_fetch_failure:
  assumes "request_outcome env src s = Inl e"
  shows "syncSources env (src # post) totals s =
           (Inl e, log env (MsgSourceError (src_type src) e) Error
                     (requesting env src (log env (MsgSourceStart (src_url src)) Info s)))"
proof -
  obtain ta tp where t: "totals = (ta, tp)" by (cases totals)
  let ?s1 = "log env (MsgSourceStart (src_url src)) Info s"
  have "request_outcome env src ?s1 = Inl e"
    using assms by (simp only: request_outcome_def log_simps)
  then have "syncSource env src ?s1 =
      (Inl e, log env (MsgSourceError (src_type src) e) Error (requesting env src ?s1))"
    by (rule syncSource_Inl)
  then show ?thesis using t by simp
qed

lemma syncAll_resets_flag: "\<not> isRunning s \<Longrightarrow> \<not> isRunning (snd (syncAll env s))"
  by (simp add: syncAll_def Let_def split: prod.split sum.split option.split)

text \<open>
  Claim C4. Let the sources before \<open>src\<close> have been synchronised without a failing fetch,
  and let the request of \<open>src\<close> fail with \<open>e\<close>: its fetch fails, or already the request
  address cannot be built. Then \<open>syncAll\<close> throws \<open>e\<close>; the failing fetch is the last
  call made (no call at all is added when the address cannot be built), so no later
  source is touched and the store stays as the earlier sources left it; the two newest
  events are the global failure and the failure of the source, both errors; and the flag
  is down again. The flag is down after every run that started, whatever the collaborators
  do.
\<close>

theorem syncAll_fetch_failure:
  assumes idle: "\<not> isRunning s"
    and split: "sources s = pre @ src # post"
    and before: "syncSources env pre (0, 0) (log env MsgGlobalStart Info (s\<lparr>isRunning := True\<rparr>))
                   = (Inr totals, sm)"
    and fails: "request_outcome env src sm = Inl e"
  shows "fst (syncAll env s) = Inl e
       \<and> \<not> isRunning (snd (syncAll env s))
       \<and> calls (snd (syncAll env s)) =
           calls sm @ (if encodeURIComponent_throws (src_url src) then [] else [Fetch (src_url src)])
       \<and> news_store (snd (syncAll env s)) = news_store sm
       \<and> take 2 (map (\<lambda>l. (message l, entry_type l)) (logs (snd (syncAll env s))))
           = [(MsgGlobalError e, Error), (MsgSourceError (src_type src) e, Error)]
       \<and> (\<forall>env'. \<not> isRunning (snd (syncAll env' s)))"
proof -
  let ?s1 = "log env MsgGlobalStart Info (s\<lparr>isRunning := True\<rparr>)"
  let ?s2 = "log env (MsgSourceError (src_type src) e) Error
               (requesting env src (log env (MsgSourceStart (src_url src)) Info sm))"
  have src1: "sources ?s1 = pre @ src # post" using split by (simp add: log_simps)
  have "syncSources env (pre @ src # post) (0, 0) ?s1 = syncSources env (src # post) totals sm"
    using before by (simp add: syncSources_append)
  also have "\<dots> = (Inl e, ?s2)" using fails by (rule syncSources_fetch_failure)
  finally have loop: "syncSources env (sources ?s1) (0, 0) ?s1 = (Inl e, ?s2)"
    using src1 by simp
  have res: "syncAll env s = (Inl e, (log env (MsgGlobalError e) Error ?s2)\<lparr>isRunning := False\<rparr>)"
    using idle loop by (simp add: syncAll_def Let_def)
  have l2: "take 1 (map (\<lambda>l. (message l, entry_type l)) (logs ?s2)) = [(MsgSourceError (src_type src) e, Error)]"
    by (simp add: logs_log)
  then obtain rest where l2': "map (\<lambda>l. (message l, entry_type l)) (logs ?s2) = (MsgSourceError (src_type src) e, Error) # rest"
    by (cases "map (\<lambda>l. (message l, entry_type l)) (logs ?s2)") auto
  have "take 2 (map (\<lambda>l. (message l, entry_type l)) (logs (log env (MsgGlobalError e) Error ?s2)))
          = [(MsgGlobalError e, Error), (MsgSourceError (src_type src) e, Error)]"
    using l2' by (cases "logs ?s2") (auto simp: logs_log [of env "MsgGlobalError e" Error ?s2] map_butlast [symmetric] take_Suc_conv_app_nth split: if_splits)
  then show ?thesis
    using res idle by (simp add: log_simps requesting_simps syncAll_resets_flag)
qed

theorem syncAll_fetch_failure_witness:
  "\<not> isRunning (constructor [])
   \<and> sources (constructor []) = [] @ source_hotel # [source_restaurant]
   \<and> request_outcome env_offline source_hotel
         (log env_offline MsgGlobalStart Info ((constructor [])\<lparr>isRunning := True\<rparr>))
       = Inl (Thrown (asc ''offline''))
   \<and> fst (syncAll env_offline (constructor [])) = Inl (Thrown (asc ''offline''))
   \<and> \<not> isRunning (snd (syncAll env_offline (constructor [])))
   \<and> calls (snd (syncAll env_offline (constructor []))) = [Fetch (src_url source_hotel)]"
  using syncAll_fetch_failure [where s = "constructor []" and pre = "[]" and src = source_hotel
          and post = "[source_restaurant]" and env = env_offline and totals = "(0, 0)"
          and sm = "log env_offline MsgGlobalStart Info ((constructor [])\<lparr>isRunning := True\<rparr>)"
          and e = "Thrown (asc ''offline'')"]
        hotel_url_encodes
  by (simp add: constructor_def env_offline_def log_simps request_outcome_def)

section \<open>Lookup before mapping\<close>

text \<open>
  Claim C8, as stated, fails: the source looks the link up first and builds the record
  only afterwards. For an item without title whose link is stored, building the record
  raises, yet \<open>processArticle\<close> returns \<open>false\<close> with the lookup as its only call, where
  the map-first order raises.
\<close>

theorem processArticle_order_counterexample:
  "buildNewsData item_untitled source_hotel = Inl TypeError
   \<and> processArticle env_feed item_untitled source_hotel (constructor [stored_a1]) =
       (Inr False, (constructor [stored_a1])\<lparr>calls := [DbGet (a_link item_untitled)]\<rparr>)
   \<and> fst (processArticle_mapFirst env_feed item_untitled source_hotel (constructor [stored_a1]))
       = Inl TypeError"
  by (simp add: buildNewsData_def item_untitled_def processArticle_def processArticle_mapFirst_def
        constructor_def env_feed_def stored_a1_def Let_def asc_def)

lemma buildNewsData_url: "buildNewsData a src = Inr n \<Longrightarrow> n_url n = a_link a"
  by (auto simp: buildNewsData_def Let_def split: option.splits)

lemma list_ex_url: "list_ex (\<lambda>d. n_url d = l) xs \<longleftrightarrow> l \<in> n_url ` set xs"
  by (auto simp: list_ex_iff)

text \<open>
  Claim C8, amended. For every item the store lookup is the first thing \<open>processArticle\<close>
  does. If the lookup finds the link, the call returns \<open>false\<close> and nothing else happens:
  no record is built, so an item that could not be mapped passes silently. Only if the
  link is absent is the record built; a failure to build it is raised without any
  insertion, and otherwise exactly that record is handed to the store.
\<close>

theorem processArticle_gate_first:
  assumes "db_get env (length (calls s)) (a_link a) = None"
  shows "(\<exists>rest. calls (snd (processArticle env a src s)) = calls s @ DbGet (a_link a) # rest)
       \<and> (a_link a \<in> n_url ` set (news_store s) \<longrightarrow>
            processArticle env a src s = (Inr False, s\<lparr>calls := calls s @ [DbGet (a_link a)]\<rparr>))
       \<and> (a_link a \<notin> n_url ` set (news_store s) \<longrightarrow>
            (case buildNewsData a src of
               Inl e \<Rightarrow>
                 fst (processArticle env a src s) = Inl e
                 \<and> calls (snd (processArticle env a src s)) = calls s @ [DbGet (a_link a)]
                 \<and> news_store (snd (processArticle env a src s)) = news_store s
             | Inr newsData \<Rightarrow>
                 calls (snd (processArticle env a src s))
                   = calls s @ [DbGet (a_link a), DbAdd newsData]
                 \<and> (case db_add env (Suc (length (calls s))) newsData of
                      Some e \<Rightarrow>
                        fst (processArticle env a src s) = Inl e
                        \<and> news_store (snd (processArticle env a src s)) = news_store s
                    | None \<Rightarrow>
                        fst (processArticle env a src s) = Inr True
                        \<and> news_store (snd (processArticle env a src s))
                            = news_store s @ [newsData])))"
  using assms
  by (simp add: processArticle_def Let_def log_simps list_ex_url
           split: sum.split option.split)

theorem processArticle_gate_first_witness:
  "db_get env_feed (length (calls (constructor [stored_a1]))) (a_link item_untitled) = None
   \<and> a_link item_untitled \<in> n_url ` set (news_store (constructor [stored_a1]))
   \<and> processArticle env_feed item_untitled source_hotel (constructor [stored_a1]) =
       (Inr False, (constructor [stored_a1])\<lparr>calls := [DbGet (a_link item_untitled)]\<rparr>)"
  using processArticle_gate_first [of env_feed "constructor [stored_a1]" item_untitled source_hotel]
  by (simp add: env_feed_def constructor_def item_untitled_def stored_a1_def)

section \<open>Per-item isolation\<close>

lemma attempts_length: "length (attempts env src items s) = length items"
  by (induction items arbitrary: s) (auto split: prod.split sum.split)

lemma syncItems_counts:
  "fst (syncItems env src items (added, processed) s) =
     (added + length (filter (\<lambda>r. r = Inr True) (attempts env src items s)),
      processed + length (filter (\<lambda>r. \<not> isl r) (attempts env src items s)))"
proof (induction items arbitrary: added processed s)
  case Nil
  then show ?case by simp
next
  case (Cons a items)
  obtain r s1 where p: "processArticle env a src s = (r, s1)" by (cases "processArticle env a src s")
  show ?case
  proof (cases r)
    case (Inl e)
    then show ?thesis using p Cons.IH by simp
  next
    case (Inr wasAdded)
    then show ?thesis using p Cons.IH by simp
  qed
qed

lemma processArticle_store:
  "news_store (snd (processArticle env a src s)) =
     (if fst (processArticle env a src s) = Inr True
      then news_store s @ [projr (buildNewsData a src)] else news_store s)"
  by (simp add: processArticle_def Let_def log_simps split: option.split sum.split)

lemma syncItems_store_length:
  "length (news_store (snd (syncItems env src items counters s))) =
     length (news_store s) + length (filter (\<lambda>r. r = Inr True) (attempts env src items s))"
proof (induction items arbitrary: counters s)
  case Nil
  then show ?case by simp
next
  case (Cons a items)
  obtain added processed where c: "counters = (added, processed)" by (cases counters)
  obtain r s1 where p: "processArticle env a src s = (r, s1)" by (cases "processArticle env a src s")
  have st: "news_store s1 = (if r = Inr True then news_store s @ [projr (buildNewsData a src)] else news_store s)"
    using processArticle_store [of env a src s] p by simp
  show ?case
  proof (cases r)
    case (Inl e)
    then show ?thesis using p c st Cons.IH by (simp add: log_simps)
  next
    case (Inr wasAdded)
    then show ?thesis using p c st Cons.IH by simp
  qed
qed

text \<open>
  Claim C1, amended. When the fetch of a source succeeds, every item is attempted, in
  order, whatever happened to the items before it. An item whose processing raises is
  logged as an error event carrying its title, and the loop goes on with the counters
  unchanged: the failed item is counted neither in \<open>added\<close> nor in \<open>processed\<close>. So
  \<open>processed\<close> is the number of items whose processing returned normally, \<open>added\<close> is
  the number of those that returned \<open>true\<close>, and the store grows by \<open>added\<close> records.
\<close>

theorem syncSource_item_isolation:
  assumes "request_outcome env src s = Inr items"
  shows "(let outs = attempts env src items
                       (log env (MsgFound (length items) (src_type src)) Info (fetching env src s))
          in length outs = length items
           \<and> fst (syncSource env src s) =
               Inr (length (filter (\<lambda>r. r = Inr True) outs), length (filter (\<lambda>r. \<not> isl r) outs))
           \<and> length (news_store (snd (syncSource env src s))) =
               length (news_store s) + length (filter (\<lambda>r. r = Inr True) outs))
       \<and> (\<forall>a rest counters st e st1.
             processArticle env a src st = (Inl e, st1) \<longrightarrow>
             syncItems env src (a # rest) counters st =
               syncItems env src rest counters (log env (MsgArticleError (a_title a) e) Error st1))"
proof -
  let ?s3 = "log env (MsgFound (length items) (src_type src)) Info (fetching env src s)"
  let ?outs = "attempts env src items ?s3"
  have res: "fst (syncSource env src s) = Inr (fst (syncItems env src items (0, 0) ?s3))"
    using assms by (simp add: syncSource_Inr Let_def)
  have st: "news_store (snd (syncSource env src s)) = news_store (snd (syncItems env src items (0, 0) ?s3))"
    using assms by (simp add: syncSource_Inr Let_def log_simps)
  have 1: "length ?outs = length items" by (rule attempts_length)
  have 2: "fst (syncSource env src s) =
             Inr (length (filter (\<lambda>r. r = Inr True) ?outs), length (filter (\<lambda>r. \<not> isl r) ?outs))"
    using res syncItems_counts [of env src items 0 0 ?s3] by simp
  have 3: "length (news_store (snd (syncSource env src s))) =
             length (news_store s) + length (filter (\<lambda>r. r = Inr True) ?outs)"
    using st syncItems_store_length [of env src items "(0, 0)" ?s3]
    by (simp add: log_simps fetching_simps)
  have 4: "\<forall>a rest counters st e st1.
             processArticle env a src st = (Inl e, st1) \<longrightarrow>
             syncItems env src (a # rest) counters st =
               syncItems env src rest counters (log env (MsgArticleError (a_title a) e) Error st1)"
  proof (intro allI impI)
    fix a rest and counters :: "nat \<times> nat" and st e st1
    assume "processArticle env a src st = (Inl e, st1)"
    then show "syncItems env src (a # rest) counters st =
               syncItems env src rest counters (log env (MsgArticleError (a_title a) e) Error st1)"
      by (cases counters) simp
  qed
  from 1 2 3 4 show ?thesis by (simp add: Let_def)
qed

lemma feed_outcome:
  "request_outcome env_feed source_hotel (constructor []) = Inr [item1, item2, item3]"
  by (simp add: request_outcome_def hotel_url_encodes env_feed_def)

lemma feed_attempts:
  "attempts env_feed source_hotel [item1, item2, item3]
     (log env_feed (MsgFound (length [item1, item2, item3]) (src_type source_hotel)) Info
        (fetching env_feed source_hotel (constructor [])))
   = [Inr True, Inl TypeError, Inr True]"
  by (simp add: env_feed_def source_hotel_def constructor_def Let_def log_def fetching_def
     processArticle_def item1_def item2_def item3_def buildNewsData_def js_or_def asc_def)

theorem syncSource_item_isolation_witness:
  "request_outcome env_feed source_hotel (constructor []) = Inr [item1, item2, item3]
   \<and> fst (syncSource env_feed source_hotel (constructor [])) = Inr (2, 2)
   \<and> length (news_store (snd (syncSource env_feed source_hotel (constructor [])))) = 2"
  using syncSource_item_isolation [OF feed_outcome] feed_outcome feed_attempts
  by (simp add: Let_def constructor_def)

text \<open>
  Claim C1, as stated, fails: with item 2 of 3 raising, \<open>processed\<close> ends at 2, not 3,
  because \<open>processed++\<close> sits inside the \<open>try\<close> behind the call that raised.
\<close>

theorem syncSource_processed_counterexample:
  "request_outcome env_feed source_hotel (constructor []) = Inr [item1, item2, item3]
   \<and> attempts env_feed source_hotel [item1, item2, item3]
        (log env_feed (MsgFound (length [item1, item2, item3]) (src_type source_hotel)) Info
           (fetching env_feed source_hotel (constructor [])))
      = [Inr True, Inl TypeError, Inr True]
   \<and> fst (syncSource env_feed source_hotel (constructor [])) = Inr (2, 2)
   \<and> fst (syncSource env_feed source_hotel (constructor [])) \<noteq> Inr (2, 3)"
  using feed_outcome feed_attempts syncSource_feed_eval by simp

section \<open>Idempotence of a second run\<close>

lemma processArticle_present:
  "a_link a \<in> n_url ` set (news_store s) \<Longrightarrow>
   fst (processArticle env a src s) \<noteq> Inr True
   \<and> news_store (snd (processArticle env a src s)) = news_store s"
  by (simp add: processArticle_def Let_def log_simps list_ex_url split: option.split)

lemma syncItems_present:
  "\<forall>a\<in>set items. a_link a \<in> n_url ` set (news_store s) \<Longrightarrow>
   fst (fst (syncItems env src items (added, processed) s)) = added
   \<and> news_store (snd (syncItems env src items (added, processed) s)) = news_store s"
proof (induction items arbitrary: added processed s)
  case Nil
  then show ?case by simp
next
  case (Cons a items)
  obtain r s1 where p: "processArticle env a src s = (r, s1)" by (cases "processArticle env a src s")
  from Cons.prems have here: "a_link a \<in> n_url ` set (news_store s)" by simp
  from processArticle_present [OF here, of env src] p
  have r: "r \<noteq> Inr True" and st: "news_store s1 = news_store s" by simp_all
  show ?case
  proof (cases r)
    case (Inl e)
    let ?s2 = "log env (MsgArticleError (a_title a) e) Error s1"
    have "\<forall>a\<in>set items. a_link a \<in> n_url ` set (news_store ?s2)"
      using Cons.prems st by (simp add: log_simps)
    from Cons.IH [OF this, of added processed] show ?thesis
      using p Inl st by (simp add: log_simps)
  next
    case (Inr wasAdded)
    with r have f: "\<not> wasAdded" by simp
    have "\<forall>a\<in>set items. a_link a \<in> n_url ` set (news_store s1)"
      using Cons.prems st by simp
    from Cons.IH [OF this, of added "processed + 1"] show ?thesis
      using p Inr f st by simp
  qed
qed

lemma syncSource_present:
  assumes "\<forall>items. fetch_outcome (fetch env (length (calls s)) (src_url src)) = Inr items \<longrightarrow>
             (\<forall>a\<in>set items. a_link a \<in> n_url ` set (news_store s))"
  shows "news_store (snd (syncSource env src s)) = news_store s
       \<and> (\<forall>c. fst (syncSource env src s) = Inr c \<longrightarrow> fst c = 0)"
proof (cases "request_outcome env src s")
  case (Inl e)
  then show ?thesis by (simp add: syncSource_Inl log_simps requesting_simps)
next
  case (Inr items)
  then have out: "fetch_outcome (fetch env (length (calls s)) (src_url src)) = Inr items"
    by (simp add: request_outcome_Inr)
  let ?s3 = "log env (MsgFound (length items) (src_type src)) Info (fetching env src s)"
  have "\<forall>a\<in>set items. a_link a \<in> n_url ` set (news_store ?s3)"
    using assms out by (simp add: log_simps fetching_simps)
  from syncItems_present [OF this, of env src 0 0] show ?thesis
    using Inr by (simp add: syncSource_Inr Let_def log_simps fetching_simps)
qed

lemma syncSources_present:
  assumes "\<forall>src\<in>set srcs. \<forall>t items. fetch_outcome (fetch env t (src_url src)) = Inr items \<longrightarrow>
             (\<forall>a\<in>set items. a_link a \<in> n_url ` set (news_store s))"
  shows "news_store (snd (syncSources env srcs (ta, tp) s)) = news_store s
       \<and> (\<forall>c. fst (syncSources env srcs (ta, tp) s) = Inr c \<longrightarrow> fst c = ta)"
  using assms
proof (induction srcs arbitrary: ta tp s)
  case Nil
  then show ?case by simp
next
  case (Cons src srcs)
  let ?s1 = "log env (MsgSourceStart (src_url src)) Info s"
  obtain r s2 where ss: "syncSource env src ?s1 = (r, s2)" by (cases "syncSource env src ?s1")
  have "\<forall>items. fetch_outcome (fetch env (length (calls ?s1)) (src_url src)) = Inr items \<longrightarrow>
             (\<forall>a\<in>set items. a_link a \<in> n_url ` set (news_store ?s1))"
    using Cons.prems by (simp add: log_simps)
  from syncSource_present [OF this] ss
  have st: "news_store s2 = news_store s" and zero: "\<forall>c. r = Inr c \<longrightarrow> fst c = 0"
    by (simp_all add: log_simps)
  show ?case
  proof (cases r)
    case (Inl e)
    then show ?thesis using ss st by simp
  next
    case (Inr c)
    obtain a p where c: "c = (a, p)" by (cases c)
    with zero Inr have a0: "a = 0" by simp
    have "\<forall>src\<in>set srcs. \<forall>t items. fetch_outcome (fetch env t (src_url src)) = Inr items \<longrightarrow>
             (\<forall>a\<in>set items. a_link a \<in> n_url ` set (news_store s2))"
      using Cons.prems st by simp
    from Cons.IH [OF this, of ta "tp + p"] show ?thesis
      using ss Inr c a0 st by simp
  qed
qed


lemma syncAll_present:
  assumes "\<not> isRunning s"
    and "\<forall>src\<in>set (sources s). \<forall>t items. fetch_outcome (fetch env t (src_url src)) = Inr items \<longrightarrow>
             (\<forall>a\<in>set items. a_link a \<in> n_url ` set (news_store s))"
  shows "news_store (snd (syncAll env s)) = news_store s
       \<and> (\<forall>c. fst (syncAll env s) = Inr (Some c) \<longrightarrow> fst c = 0)"
proof -
  let ?s1 = "log env MsgGlobalStart Info (s\<lparr>isRunning := True\<rparr>)"
  obtain r s2 where loop: "syncSources env (sources ?s1) (0, 0) ?s1 = (r, s2)"
    by (cases "syncSources env (sources ?s1) (0, 0) ?s1")
  have "\<forall>src\<in>set (sources ?s1). \<forall>t items. fetch_outcome (fetch env t (src_url src)) = Inr items \<longrightarrow>
             (\<forall>a\<in>set items. a_link a \<in> n_url ` set (news_store ?s1))"
    using assms(2) by (simp add: log_simps)
  from syncSources_present [OF this, of 0 0] loop
  have st: "news_store s2 = news_store s" and zero: "\<forall>c. r = Inr c \<longrightarrow> fst c = 0"
    by (simp_all add: log_simps)
  show ?thesis
  proof (cases r)
    case (Inl e)
    then show ?thesis using assms(1) loop st by (simp add: syncAll_def Let_def log_simps)
  next
    case (Inr c)
    with zero have "fst c = 0" by simp
    then show ?thesis
      using assms(1) loop st Inr
      by (auto simp: syncAll_def Let_def log_simps split: option.split)
  qed
qed

lemma processArticle_mono:
  "set (news_store s) \<subseteq> set (news_store (snd (processArticle env a src s)))"
  by (auto simp: processArticle_store)

lemma processArticle_ok:
  "fst (processArticle env a src s) = Inr b \<Longrightarrow>
   a_link a \<in> n_url ` set (news_store (snd (processArticle env a src s)))"
  by (auto simp: processArticle_def Let_def log_simps list_ex_url buildNewsData_url
           split: option.splits sum.splits if_splits)

lemma syncItems_mono:
  "set (news_store s) \<subseteq> set (news_store (snd (syncItems env src items counters s)))"
proof (induction items arbitrary: counters s)
  case Nil
  then show ?case by simp
next
  case (Cons a items)
  obtain added processed where c: "counters = (added, processed)" by (cases counters)
  obtain r s1 where p: "processArticle env a src s = (r, s1)" by (cases "processArticle env a src s")
  have m: "set (news_store s) \<subseteq> set (news_store s1)"
    using processArticle_mono [of s env a src] p by simp
  show ?case
  proof (cases r)
    case (Inl e)
    have "set (news_store s1) \<subseteq> set (news_store (snd (syncItems env src items (added, processed)
             (log env (MsgArticleError (a_title a) e) Error s1))))"
      using Cons.IH [of "log env (MsgArticleError (a_title a) e) Error s1" "(added, processed)"]
      by (simp add: log_simps)
    then show ?thesis using m p c Inl by auto
  next
    case (Inr wasAdded)
    have "set (news_store s1) \<subseteq> set (news_store (snd (syncItems env src items
             (if wasAdded then added + 1 else added, processed + 1) s1)))"
      by (rule Cons.IH)
    then show ?thesis using m p c Inr by auto
  qed
qed

lemma syncItems_processed_le:
  "snd (fst (syncItems env src items (added, processed) s)) \<le> processed + length items"
proof -
  have "length (filter (\<lambda>r. \<not> isl r) (attempts env src items s)) \<le> length (attempts env src items s)"
    by (rule length_filter_le)
  then show ?thesis by (simp add: syncItems_counts attempts_length)
qed

lemma syncItems_complete:
  "snd (fst (syncItems env src items (added, processed) s)) = processed + length items \<Longrightarrow>
   \<forall>a\<in>set items. a_link a \<in> n_url ` set (news_store (snd (syncItems env src items (added, processed) s)))"
proof (induction items arbitrary: added processed s)
  case Nil
  then show ?case by simp
next
  case (Cons a items)
  obtain r s1 where p: "processArticle env a src s = (r, s1)" by (cases "processArticle env a src s")
  show ?case
  proof (cases r)
    case (Inl e)
    let ?s2 = "log env (MsgArticleError (a_title a) e) Error s1"
    have "snd (fst (syncItems env src items (added, processed) ?s2)) \<le> processed + length items"
      by (rule syncItems_processed_le)
    with Cons.prems p Inl show ?thesis by simp
  next
    case (Inr wasAdded)
    let ?c = "(if wasAdded then added + 1 else added)"
    let ?f = "snd (syncItems env src items (?c, processed + 1) s1)"
    have eq: "syncItems env src (a # items) (added, processed) s = syncItems env src items (?c, processed + 1) s1"
      using p Inr by simp
    have "snd (fst (syncItems env src items (?c, processed + 1) s1)) = (processed + 1) + length items"
      using Cons.prems eq by simp
    then have rest: "\<forall>a\<in>set items. a_link a \<in> n_url ` set (news_store ?f)"
      by (rule Cons.IH)
    have "a_link a \<in> n_url ` set (news_store s1)"
      using processArticle_ok [of env a src s wasAdded] p Inr by simp
    moreover have "set (news_store s1) \<subseteq> set (news_store ?f)" by (rule syncItems_mono)
    ultimately have "a_link a \<in> n_url ` set (news_store ?f)" by auto
    with rest show ?thesis using eq by simp
  qed
qed


lemma syncSource_mono:
  "set (news_store s) \<subseteq> set (news_store (snd (syncSource env src s)))"
proof (cases "request_outcome env src s")
  case (Inl e)
  then show ?thesis by (simp add: syncSource_Inl log_simps requesting_simps)
next
  case (Inr items)
  let ?s3 = "log env (MsgFound (length items) (src_type src)) Info (fetching env src s)"
  have "set (news_store ?s3) \<subseteq> set (news_store (snd (syncItems env src items (0, 0) ?s3)))"
    by (rule syncItems_mono)
  then show ?thesis using Inr by (simp add: syncSource_Inr Let_def log_simps fetching_simps)
qed

lemma syncSource_complete:
  assumes "syncSource env src s = (Inr c, s')"
  shows "\<exists>items. fetch_outcome (fetch env (length (calls s)) (src_url src)) = Inr items
           \<and> \<not> encodeURIComponent_throws (src_url src)
           \<and> snd c \<le> length items
           \<and> (snd c = length items \<longrightarrow> (\<forall>a\<in>set items. a_link a \<in> n_url ` set (news_store s')))"
proof (cases "request_outcome env src s")
  case (Inl e)
  with assms show ?thesis by (simp add: syncSource_Inl)
next
  case (Inr items)
  then have out: "fetch_outcome (fetch env (length (calls s)) (src_url src)) = Inr items"
    and enc: "\<not> encodeURIComponent_throws (src_url src)"
    by (simp_all add: request_outcome_Inr)
  let ?s3 = "log env (MsgFound (length items) (src_type src)) Info (fetching env src s)"
  let ?r = "syncItems env src items (0, 0) ?s3"
  from assms Inr have c: "c = fst ?r" and s': "news_store s' = news_store (snd ?r)"
    by (auto simp: syncSource_Inr Let_def log_simps)
  have le: "snd (fst ?r) \<le> 0 + length items" by (rule syncItems_processed_le)
  have all: "snd (fst ?r) = 0 + length items \<Longrightarrow>
      \<forall>a\<in>set items. a_link a \<in> n_url ` set (news_store (snd ?r))"
    by (rule syncItems_complete)
  show ?thesis using out enc c s' le all by simp
qed

lemma syncSources_complete:
  assumes "\<forall>t u. fetch env t u = feed u"
    and "syncSources env srcs (ta, tp) s = (Inr c, s')"
  shows "snd c \<le> tp + feed_size feed srcs
       \<and> set (news_store s) \<subseteq> set (news_store s')
       \<and> (\<forall>src\<in>set srcs. \<not> encodeURIComponent_throws (src_url src)
                            \<and> \<not> isl (fetch_outcome (feed (src_url src))))
       \<and> (snd c = tp + feed_size feed srcs \<longrightarrow>
            (\<forall>src\<in>set srcs. \<forall>a\<in>set (fetched_items (feed (src_url src))).
               a_link a \<in> n_url ` set (news_store s')))"
  using assms(2)
proof (induction srcs arbitrary: ta tp s)
  case Nil
  then show ?case by (auto simp: feed_size_def)
next
  case (Cons src srcs)
  let ?s1 = "log env (MsgSourceStart (src_url src)) Info s"
  obtain r s2 where ss: "syncSource env src ?s1 = (r, s2)" by (cases "syncSource env src ?s1")
  show ?case
  proof (cases r)
    case (Inl e)
    with Cons.prems ss show ?thesis by simp
  next
    case (Inr c1)
    obtain a p where c1: "c1 = (a, p)" by (cases c1)
    from ss Inr have ss': "syncSource env src ?s1 = (Inr c1, s2)" by simp
    from syncSource_complete [OF ss'] assms(1) c1
    obtain items where out: "fetch_outcome (feed (src_url src)) = Inr items"
      and enc: "\<not> encodeURIComponent_throws (src_url src)"
      and le: "p \<le> length items"
      and all: "p = length items \<longrightarrow> (\<forall>a\<in>set items. a_link a \<in> n_url ` set (news_store s2))"
      by auto
    have fi: "fetched_items (feed (src_url src)) = items" using out by (simp add: fetched_items_def)
    have rest: "syncSources env srcs (ta + a, tp + p) s2 = (Inr c, s')"
      using Cons.prems ss Inr c1 by simp
    from Cons.IH [OF rest]
    have ih1: "snd c \<le> tp + p + feed_size feed srcs"
      and ih2: "set (news_store s2) \<subseteq> set (news_store s')"
      and ih3: "\<forall>src\<in>set srcs. \<not> encodeURIComponent_throws (src_url src)
                            \<and> \<not> isl (fetch_outcome (feed (src_url src)))"
      and ih4: "snd c = tp + p + feed_size feed srcs \<longrightarrow>
            (\<forall>src\<in>set srcs. \<forall>a\<in>set (fetched_items (feed (src_url src))).
               a_link a \<in> n_url ` set (news_store s'))"
      by simp_all
    have fs: "feed_size feed (src # srcs) = length items + feed_size feed srcs"
      by (simp add: feed_size_def fi)
    have m: "set (news_store s) \<subseteq> set (news_store s2)"
      using syncSource_mono [of ?s1 env src] ss by (simp add: log_simps)
    have 1: "snd c \<le> tp + feed_size feed (src # srcs)" using ih1 le fs by simp
    have 2: "set (news_store s) \<subseteq> set (news_store s')" using m ih2 by auto
    have 3: "\<forall>x\<in>set (src # srcs). \<not> encodeURIComponent_throws (src_url x)
                            \<and> \<not> isl (fetch_outcome (feed (src_url x)))"
      using ih3 out enc by simp
    have 4: "snd c = tp + feed_size feed (src # srcs) \<longrightarrow>
            (\<forall>x\<in>set (src # srcs). \<forall>a\<in>set (fetched_items (feed (src_url x))).
               a_link a \<in> n_url ` set (news_store s'))"
    proof
      assume eq: "snd c = tp + feed_size feed (src # srcs)"
      with ih1 le fs have p: "p = length items" by simp
      with eq fs have "snd c = tp + p + feed_size feed srcs" by simp
      with ih4 have r4: "\<forall>src\<in>set srcs. \<forall>a\<in>set (fetched_items (feed (src_url src))).
               a_link a \<in> n_url ` set (news_store s')" by simp
      from all p have "\<forall>a\<in>set items. a_link a \<in> n_url ` set (news_store s2)" by simp
      with ih2 have "\<forall>a\<in>set items. a_link a \<in> n_url ` set (news_store s')"
        using image_mono [OF ih2, of n_url] by blast
      with r4 fi show "\<forall>x\<in>set (src # srcs). \<forall>a\<in>set (fetched_items (feed (src_url x))).
               a_link a \<in> n_url ` set (news_store s')" by simp
    qed
    from 1 2 3 4 show ?thesis by blast
  qed
qed

lemma syncSources_returns:
  assumes "\<forall>src\<in>set srcs. \<not> encodeURIComponent_throws (src_url src)
             \<and> (\<forall>t. \<not> isl (fetch_outcome (fetch env t (src_url src))))"
  shows "\<exists>c. fst (syncSources env srcs totals s) = Inr c"
  using assms
proof (induction srcs arbitrary: totals s)
  case Nil
  then show ?case by simp
next
  case (Cons src srcs)
  obtain ta tp where t: "totals = (ta, tp)" by (cases totals)
  let ?s1 = "log env (MsgSourceStart (src_url src)) Info s"
  from Cons.prems have enc: "\<not> encodeURIComponent_throws (src_url src)"
    and "\<not> isl (fetch_outcome (fetch env (length (calls ?s1)) (src_url src)))"
    by simp_all
  then obtain items where "fetch_outcome (fetch env (length (calls ?s1)) (src_url src)) = Inr items"
    by (cases "fetch_outcome (fetch env (length (calls ?s1)) (src_url src))") auto
  with enc have "request_outcome env src ?s1 = Inr items" by (simp add: request_outcome_def)
  then obtain c1 s2 where ss: "syncSource env src ?s1 = (Inr c1, s2)"
    by (simp add: syncSource_Inr Let_def)
  obtain a p where c1: "c1 = (a, p)" by (cases c1)
  from Cons.prems have "\<forall>src\<in>set srcs. \<not> encodeURIComponent_throws (src_url src)
             \<and> (\<forall>t. \<not> isl (fetch_outcome (fetch env t (src_url src))))"
    by simp
  from Cons.IH [OF this, of "(ta + a, tp + p)" s2]
  show ?case using ss c1 t by simp
qed


text \<open>
  Claim C3, amended. Let a first run over a feed return normally with every fetched item
  processed without error (\<open>processed\<close> equals the number of items of the feed). Then a
  second run over the same feed, started on any idle state of the same sources whose store
  contains every record the first run left, inserts nothing: the store is unchanged, and
  the run returns totals with \<open>added = 0\<close>, unless the optional \<open>loadNews\<close> raises, in
  which case that error is thrown. Failures of the store during the second run do not
  matter.
\<close>

theorem syncAll_idempotent:
  assumes feed1: "\<forall>t u. fetch env1 t u = feed u"
    and feed2: "\<forall>t u. fetch env2 t u = feed u"
    and idle: "\<not> isRunning s0"
    and run1: "syncAll env1 s0 = (Inr (Some totals1), s1)"
    and complete: "snd totals1 = feed_size feed (sources s0)"
    and idle2: "\<not> isRunning s2"
    and same_sources: "sources s2 = sources s0"
    and kept: "set (news_store s1) \<subseteq> set (news_store s2)"
  shows "news_store (snd (syncAll env2 s2)) = news_store s2
       \<and> (case loadNews env2 of
            Some (Some e) \<Rightarrow> fst (syncAll env2 s2) = Inl e
          | _ \<Rightarrow> (\<exists>processed2. fst (syncAll env2 s2) = Inr (Some (0, processed2))))"
proof -
  let ?a = "log env1 MsgGlobalStart Info (s0\<lparr>isRunning := True\<rparr>)"
  obtain r sa where loop1: "syncSources env1 (sources ?a) (0, 0) ?a = (r, sa)"
    by (cases "syncSources env1 (sources ?a) (0, 0) ?a")
  have r: "r = Inr totals1" and st1: "news_store s1 = news_store sa"
    using run1 idle loop1
    by (auto simp: syncAll_def Let_def log_simps split: sum.splits option.splits)
  have loop1': "syncSources env1 (sources s0) (0, 0) ?a = (Inr totals1, sa)"
    using loop1 r by (simp add: log_simps)
  from syncSources_complete [OF feed1 loop1'] complete
  have ok: "\<forall>src\<in>set (sources s0). \<not> encodeURIComponent_throws (src_url src)
                            \<and> \<not> isl (fetch_outcome (feed (src_url src)))"
    and present: "\<forall>src\<in>set (sources s0). \<forall>a\<in>set (fetched_items (feed (src_url src))).
               a_link a \<in> n_url ` set (news_store sa)"
    by simp_all
  have gate: "\<forall>src\<in>set (sources s2). \<forall>t items.
      fetch_outcome (fetch env2 t (src_url src)) = Inr items \<longrightarrow>
        (\<forall>a\<in>set items. a_link a \<in> n_url ` set (news_store s2))"
  proof (intro ballI allI impI)
    fix src t items a
    assume src: "src \<in> set (sources s2)"
      and out: "fetch_outcome (fetch env2 t (src_url src)) = Inr items"
      and a: "a \<in> set items"
    from out feed2 have "fetched_items (feed (src_url src)) = items"
      by (simp add: fetched_items_def)
    with present src same_sources a have "a_link a \<in> n_url ` set (news_store sa)" by auto
    with kept st1 show "a_link a \<in> n_url ` set (news_store s2)" by auto
  qed
  from syncAll_present [OF idle2 gate]
  have keep: "news_store (snd (syncAll env2 s2)) = news_store s2"
    and zero: "\<forall>c. fst (syncAll env2 s2) = Inr (Some c) \<longrightarrow> fst c = 0"
    by simp_all
  let ?b = "log env2 MsgGlobalStart Info (s2\<lparr>isRunning := True\<rparr>)"
  have "\<forall>src\<in>set (sources ?b). \<not> encodeURIComponent_throws (src_url src)
           \<and> (\<forall>t. \<not> isl (fetch_outcome (fetch env2 t (src_url src))))"
    using ok feed2 same_sources by (simp add: log_simps)
  from syncSources_returns [OF this, of "(0, 0)" ?b]
  obtain c sb where loop2: "syncSources env2 (sources ?b) (0, 0) ?b = (Inr c, sb)"
    by (cases "syncSources env2 (sources ?b) (0, 0) ?b") auto
  have res: "case loadNews env2 of
            Some (Some e) \<Rightarrow> fst (syncAll env2 s2) = Inl e
          | _ \<Rightarrow> fst (syncAll env2 s2) = Inr (Some c)"
    using idle2 loop2 by (simp add: syncAll_def Let_def split: option.split)
  have "case loadNews env2 of
            Some (Some e) \<Rightarrow> fst (syncAll env2 s2) = Inl e
          | _ \<Rightarrow> (\<exists>processed2. fst (syncAll env2 s2) = Inr (Some (0, processed2)))"
  proof (cases "loadNews env2")
    case None
    with res have "fst (syncAll env2 s2) = Inr (Some c)" by simp
    moreover from this zero have "fst c = 0" by simp
    ultimately have "fst (syncAll env2 s2) = Inr (Some (0, snd c))" by (cases c) simp
    with None show ?thesis by auto
  next
    case (Some outcome)
    show ?thesis
    proof (cases outcome)
      case None
      with res Some have "fst (syncAll env2 s2) = Inr (Some c)" by simp
      moreover from this zero have "fst c = 0" by simp
      ultimately have "fst (syncAll env2 s2) = Inr (Some (0, snd c))" by (cases c) simp
      with None Some show ?thesis by auto
    next
      case (Some e)
      with res \<open>loadNews env2 = Some outcome\<close> show ?thesis by simp
    qed
  qed
  with keep show ?thesis by simp
qed


lemmas run_defs = syncAll_def syncSource_def processArticle_def buildNewsData_def log_def Let_def
  env_one_def env_flaky_def feed_one_def constructor_def source_hotel_def source_restaurant_def
  item1_def js_or_def asc_def low_surrogate_def high_surrogate_def

lemma one_run:
  "fst (syncAll env_one (constructor [])) = Inr (Some (1, 1))"
  by (simp add: run_defs)

lemma one_run_state:
  "sources (snd (syncAll env_one (constructor []))) = sources (constructor [])"
  by (simp add: run_defs)

lemma one_rerun:
  "fst (syncAll env_one (snd (syncAll env_one (constructor [])))) = Inr (Some (0, 1))"
  by (simp add: run_defs)

lemma one_feed_size: "feed_size feed_one (sources (constructor [])) = 1"
  by (simp add: feed_size_def fetched_items_def feed_one_def constructor_def source_hotel_def
        source_restaurant_def asc_def)

theorem syncAll_idempotent_witness:
  "fetch env_one = (\<lambda>t. feed_one)
   \<and> \<not> isRunning (constructor [])
   \<and> fst (syncAll env_one (constructor [])) = Inr (Some (1, 1))
   \<and> snd (1 :: nat, 1 :: nat) = feed_size feed_one (sources (constructor []))
   \<and> loadNews env_one = None
   \<and> (\<exists>processed2. fst (syncAll env_one (snd (syncAll env_one (constructor []))))
         = Inr (Some (0, processed2)))
   \<and> fst (syncAll env_one (snd (syncAll env_one (constructor [])))) = Inr (Some (0, 1))"
proof -
  let ?s1 = "snd (syncAll env_one (constructor []))"
  have f: "\<forall>t u. fetch env_one t u = feed_one u" by (simp add: env_one_def)
  have idle: "\<not> isRunning (constructor [])" by (simp add: constructor_def)
  have run1: "syncAll env_one (constructor []) = (Inr (Some (1, 1)), ?s1)"
    using one_run by (simp add: prod_eq_iff)
  have c: "snd (1 :: nat, 1 :: nat) = feed_size feed_one (sources (constructor []))"
    by (simp add: one_feed_size)
  have idle2: "\<not> isRunning ?s1" using idle by (rule syncAll_resets_flag)
  have ln: "loadNews env_one = None" by (simp add: env_one_def)
  from syncAll_idempotent [OF f f idle run1 c idle2 one_run_state subset_refl] ln
  have "\<exists>processed2. fst (syncAll env_one ?s1) = Inr (Some (0, processed2))" by simp
  with f idle one_run c ln one_rerun show ?thesis by (simp add: env_one_def)
qed

text \<open>
  Claim C3, as stated, fails after a first run in which an item failed: the store rejects
  the insertion of the only item, the first run returns \<open>(0, 0)\<close> and leaves the store
  empty, and the second run over the same feed adds the item.
\<close>

theorem syncAll_idempotent_counterexample:
  "fetch env_flaky = fetch env_one
   \<and> fst (syncAll env_flaky (constructor [])) = Inr (Some (0, 0))
   \<and> news_store (snd (syncAll env_flaky (constructor []))) = []
   \<and> fst (syncAll env_one (snd (syncAll env_flaky (constructor [])))) = Inr (Some (1, 1))"
  by (simp add: run_defs)

section \<open>Locality inference\<close>

lemma firstCity_None:
  "firstCity cs t = None \<longleftrightarrow> (\<forall>c\<in>set cs. \<not> js_includes t c)"
  by (induction cs) auto

lemma firstCity_Some:
  "i < length cs \<Longrightarrow> js_includes t (cs ! i) \<Longrightarrow> (\<forall>j<i. \<not> js_includes t (cs ! j)) \<Longrightarrow>
   firstCity cs t = Some (cs ! i)"
proof (induction cs arbitrary: i)
  case Nil
  then show ?case by simp
next
  case (Cons c cs)
  show ?case
  proof (cases i)
    case 0
    with Cons.prems show ?thesis by simp
  next
    case (Suc k)
    from Cons.prems(3) Suc have first: "\<not> js_includes t c" by auto
    have "\<forall>j<k. \<not> js_includes t (cs ! j)"
    proof (intro allI impI)
      fix j assume "j < k"
      then have "Suc j < i" using Suc by simp
      with Cons.prems(3) have "\<not> js_includes t ((c # cs) ! Suc j)" by blast
      then show "\<not> js_includes t (cs ! j)" by simp
    qed
    with Cons.IH [of k] Cons.prems Suc have "firstCity cs t = Some (cs ! k)" by simp
    with first Suc show ?thesis by simp
  qed
qed

lemma js_includes_iff: "js_includes s t \<longleftrightarrow> (\<exists>pre post. s = pre @ t @ post)"
  by (simp add: js_includes_def sublist_def)

lemma cities_nonempty: "\<forall>c\<in>set cities. c \<noteq> []"
  by (simp add: cities_def asc_def)

text \<open>
  Claim C7. Let the text be the content with its markup stripped (empty for an empty or
  absent content). \<open>extractCity\<close> returns none exactly when no gazetteer entry occurs in
  the text as a contiguous, case-sensitive run of code units; and it returns the entry at
  index \<open>i\<close> of the gazetteer whenever that entry occurs and no entry declared before it
  does, wherever in the text the entries stand.
\<close>

theorem extractCity_first_match:
  "(let textContent = (case content of None \<Rightarrow> [] | Some c \<Rightarrow> stripTags c) in
      (extractCity content = None \<longleftrightarrow>
         (\<forall>city\<in>set cities. \<not> (\<exists>pre post. textContent = pre @ city @ post)))
    \<and> (\<forall>i<length cities.
          (\<exists>pre post. textContent = pre @ cities ! i @ post)
          \<and> (\<forall>j<i. \<not> (\<exists>pre post. textContent = pre @ cities ! j @ post))
          \<longrightarrow> extractCity content = Some (cities ! i)))"
proof (cases "truthy content")
  case True
  then obtain c where c: "content = Some c" by (cases content) auto
  have e: "extractCity content = firstCity cities (stripTags c)"
    using True c by (simp add: extractCity_def)
  show ?thesis
    unfolding Let_def c option.case e [unfolded c]
    by (simp add: firstCity_None firstCity_Some js_includes_iff [symmetric])
next
  case False
  then have t: "(case content of None \<Rightarrow> [] | Some c \<Rightarrow> stripTags c) = []"
    by (cases content) auto
  have e: "extractCity content = None" using False by (simp add: extractCity_def)
  have no: "\<And>city. city \<in> set cities \<Longrightarrow> \<not> (\<exists>pre post. [] = pre @ city @ post)"
    using cities_nonempty by auto
  have no': "\<And>i. i < length cities \<Longrightarrow> \<not> (\<exists>pre post. [] = pre @ cities ! i @ post)"
    using no nth_mem by blast
  show ?thesis unfolding Let_def t e using no no' by blast
qed

lemma strip_example:
  "stripTags (asc ''<b>Lyon</b> puis Paris'') = asc ''Lyon puis Paris''"
  by (simp add: asc_def LT_def GT_def)

theorem extractCity_first_match_witness:
  "0 < length cities
   \<and> cities ! 0 = asc ''Paris'' \<and> cities ! 1 = asc ''Lyon''
   \<and> stripTags (asc ''<b>Lyon</b> puis Paris'') = asc ''Lyon puis '' @ cities ! 0 @ []
   \<and> stripTags (asc ''<b>Lyon</b> puis Paris'') = [] @ cities ! 1 @ asc '' puis Paris''
   \<and> extractCity (Some (asc ''<b>Lyon</b> puis Paris'')) = Some (asc ''Paris'')"
proof -
  have c0: "cities ! 0 = asc ''Paris''" and c1: "cities ! 1 = asc ''Lyon''" and len: "0 < length cities"
    by (simp_all add: cities_def)
  have t0: "stripTags (asc ''<b>Lyon</b> puis Paris'') = asc ''Lyon puis '' @ cities ! 0 @ []"
    unfolding strip_example by (simp add: cities_def asc_def)
  have t1: "stripTags (asc ''<b>Lyon</b> puis Paris'') = [] @ cities ! 1 @ asc '' puis Paris''"
    unfolding strip_example by (simp add: cities_def asc_def)
  have occ: "\<exists>pre post. stripTags (asc ''<b>Lyon</b> puis Paris'') = pre @ cities ! 0 @ post"
    using t0 by blast
  from extractCity_first_match [of "Some (asc ''<b>Lyon</b> puis Paris'')"] len occ
  have "extractCity (Some (asc ''<b>Lyon</b> puis Paris'')) = Some (cities ! 0)"
    by (simp add: Let_def)
  with c0 c1 len t0 t1 show ?thesis by simp
qed

section \<open>Summary\<close>

lemma lastIndexOf_from_absent: "c \<notin> set xs \<Longrightarrow> lastIndexOf_from xs c k found = found"
  by (induction xs arbitrary: k found) auto

lemma lastIndexOf_from_last:
  "i < length xs \<Longrightarrow> xs ! i = c \<Longrightarrow> (\<forall>j. i < j \<and> j < length xs \<longrightarrow> xs ! j \<noteq> c) \<Longrightarrow>
   lastIndexOf_from xs c k found = int (k + i)"
proof (induction xs arbitrary: i k found)
  case Nil
  then show ?case by simp
next
  case (Cons x xs)
  show ?case
  proof (cases i)
    case 0
    have "c \<notin> set xs"
    proof
      assume "c \<in> set xs"
      then obtain j where j: "j < length xs" "xs ! j = c" by (auto simp: in_set_conv_nth)
      with Cons.prems(3) 0 have "(x # xs) ! Suc j \<noteq> c" by (metis length_Cons not_less_eq zero_less_Suc)
      with j show False by simp
    qed
    with Cons.prems 0 show ?thesis by (simp add: lastIndexOf_from_absent)
  next
    case (Suc m)
    have "\<forall>j. m < j \<and> j < length xs \<longrightarrow> xs ! j \<noteq> c"
    proof (intro allI impI)
      fix j assume "m < j \<and> j < length xs"
      then have "i < Suc j \<and> Suc j < length (x # xs)" using Suc by simp
      with Cons.prems(3) have "(x # xs) ! Suc j \<noteq> c" by blast
      then show "xs ! j \<noteq> c" by simp
    qed
    with Cons.IH [of m "Suc k"] Cons.prems Suc show ?thesis by simp
  qed
qed

lemma lastIndexOf_absent: "c \<notin> set s \<Longrightarrow> lastIndexOf s c = - 1"
  by (simp add: lastIndexOf_def lastIndexOf_from_absent)

lemma lastIndexOf_last:
  "i < length s \<Longrightarrow> s ! i = c \<Longrightarrow> (\<forall>j. i < j \<and> j < length s \<longrightarrow> s ! j \<noteq> c) \<Longrightarrow>
   lastIndexOf s c = int i"
  using lastIndexOf_from_last [of i s c 0 "- 1"] by (simp add: lastIndexOf_def)

lemma length_ellipsis: "length ellipsis = 3"
  by (simp add: ellipsis_def asc_def)

lemma extractSummary_long:
  assumes "truthy content" and "200 < length (trim (stripTags (the content)))"
  shows "extractSummary content =
           (if 150 < lastIndexOf (take 200 (trim (stripTags (the content)))) SP
            then take (nat (lastIndexOf (take 200 (trim (stripTags (the content)))) SP))
                   (take 200 (trim (stripTags (the content))))
            else take 200 (trim (stripTags (the content)))) @ ellipsis"
  using assms by (simp add: extractSummary_def Let_def substring0_def)

lemma stripTags_plain: "LT \<notin> set s \<Longrightarrow> stripTags s = s"
  by (induction s) auto

lemma trim_plain: "s \<noteq> [] \<Longrightarrow> \<not> js_space (hd s) \<Longrightarrow> \<not> js_space (last s) \<Longrightarrow> trim s = s"
proof -
  assume ne: "s \<noteq> []" and h: "\<not> js_space (hd s)" and l: "\<not> js_space (last s)"
  have 1: "dropWhile js_space s = s" using ne h by (cases s) auto
  have "rev s \<noteq> []" using ne by simp
  moreover have "\<not> js_space (hd (rev s))" using l ne by (simp add: hd_rev)
  ultimately have 2: "dropWhile js_space (rev s) = rev s" by (cases "rev s") auto
  show ?thesis by (simp add: trim_def 1 2)
qed

text \<open>
  What the source computes. An empty or absent input gives the placeholder. Otherwise let
  \<open>t\<close> be the input with its tags stripped, trimmed. With at most 200 code units \<open>t\<close>
  is the result. With more, the result has at most 203 code units and ends with the
  ellipsis; in front of the ellipsis stand the first 200 code units of \<open>t\<close>, cut back to
  the last U+0020 among them when it stands at an index greater than 150. The search is
  \<open>lastIndexOf(' ')\<close>, so U+0020 is the only code unit it finds.
\<close>

lemma extractSummary_computes:
  "(\<not> truthy content \<longrightarrow> extractSummary content = resumeAVenir)
   \<and> (truthy content \<longrightarrow>
        (let t = trim (stripTags (the content)) in
           (length t \<le> 200 \<longrightarrow> extractSummary content = t)
         \<and> (200 < length t \<longrightarrow>
              length (extractSummary content) \<le> 203
              \<and> (\<exists>p. extractSummary content = p @ ellipsis)
              \<and> (\<forall>i. i < 200 \<and> t ! i = SP \<and> (\<forall>j. i < j \<and> j < 200 \<longrightarrow> t ! j \<noteq> SP) \<longrightarrow>
                     extractSummary content = (if 150 < i then take i t else take 200 t) @ ellipsis)
              \<and> ((\<forall>i<200. t ! i \<noteq> SP) \<longrightarrow> extractSummary content = take 200 t @ ellipsis))))"
proof (intro conjI impI)
  assume "\<not> truthy content"
  then show "extractSummary content = resumeAVenir" by (simp add: extractSummary_def)
next
  assume tr: "truthy content"
  let ?t = "trim (stripTags (the content))"
  let ?tr = "take 200 ?t"
  have short: "length ?t \<le> 200 \<Longrightarrow> extractSummary content = ?t"
    using tr by (simp add: extractSummary_def Let_def)
  have long: "200 < length ?t \<Longrightarrow> extractSummary content =
      (if 150 < lastIndexOf ?tr SP then take (nat (lastIndexOf ?tr SP)) ?tr else ?tr) @ ellipsis"
    using tr by (rule extractSummary_long)
  have bound: "200 < length ?t \<Longrightarrow> length (extractSummary content) \<le> 203"
    by (simp add: long length_ellipsis)
  have ends: "200 < length ?t \<Longrightarrow> \<exists>p. extractSummary content = p @ ellipsis"
    by (simp add: long)
  have backup: "\<And>i. 200 < length ?t \<Longrightarrow> i < 200 \<Longrightarrow> ?t ! i = SP \<Longrightarrow>
      (\<forall>j. i < j \<and> j < 200 \<longrightarrow> ?t ! j \<noteq> SP) \<Longrightarrow>
      extractSummary content = (if 150 < i then take i ?t else take 200 ?t) @ ellipsis"
  proof -
    fix i
    assume l: "200 < length ?t" and i: "i < 200" and sp: "?t ! i = SP"
      and last: "\<forall>j. i < j \<and> j < 200 \<longrightarrow> ?t ! j \<noteq> SP"
    have len: "length ?tr = 200" using l by simp
    have "lastIndexOf ?tr SP = int i"
    proof (rule lastIndexOf_last)
      show "i < length ?tr" using i len by simp
      show "?tr ! i = SP" using i sp by simp
      show "\<forall>j. i < j \<and> j < length ?tr \<longrightarrow> ?tr ! j \<noteq> SP" using last len by simp
    qed
    moreover have "take i ?tr = take i ?t" using i by (simp add: min_def)
    ultimately show "extractSummary content = (if 150 < i then take i ?t else take 200 ?t) @ ellipsis"
      using long [OF l] by simp
  qed
  have hard: "200 < length ?t \<Longrightarrow> (\<forall>i<200. ?t ! i \<noteq> SP) \<Longrightarrow>
      extractSummary content = take 200 ?t @ ellipsis"
  proof -
    assume l: "200 < length ?t" and no: "\<forall>i<200. ?t ! i \<noteq> SP"
    have "SP \<notin> set ?tr"
    proof
      assume "SP \<in> set ?tr"
      then obtain j where "j < length ?tr" "?tr ! j = SP" by (auto simp: in_set_conv_nth)
      with no show False by simp
    qed
    then have "lastIndexOf ?tr SP = - 1" by (rule lastIndexOf_absent)
    with long [OF l] show ?thesis by simp
  qed
  show "let t = trim (stripTags (the content)) in
           (length t \<le> 200 \<longrightarrow> extractSummary content = t)
         \<and> (200 < length t \<longrightarrow>
              length (extractSummary content) \<le> 203
              \<and> (\<exists>p. extractSummary content = p @ ellipsis)
              \<and> (\<forall>i. i < 200 \<and> t ! i = SP \<and> (\<forall>j. i < j \<and> j < 200 \<longrightarrow> t ! j \<noteq> SP) \<longrightarrow>
                     extractSummary content = (if 150 < i then take i t else take 200 t) @ ellipsis)
              \<and> ((\<forall>i<200. t ! i \<noteq> SP) \<longrightarrow> extractSummary content = take 200 t @ ellipsis))"
    unfolding Let_def using short bound ends backup hard by blast
qed


lemma text_with_space_plain: "trim (stripTags text_with_space) = text_with_space"
proof -
  have "LT \<notin> set text_with_space" by (auto simp: text_with_space_def LT_def)
  then have 1: "stripTags text_with_space = text_with_space" by (rule stripTags_plain)
  have "trim text_with_space = text_with_space"
    by (rule trim_plain) (simp_all add: text_with_space_def js_space_def)
  with 1 show ?thesis by simp
qed

lemma text_with_tab_plain: "trim (stripTags text_with_tab) = text_with_tab"
proof -
  have "LT \<notin> set text_with_tab" by (auto simp: text_with_tab_def LT_def)
  then have 1: "stripTags text_with_tab = text_with_tab" by (rule stripTags_plain)
  have "trim text_with_tab = text_with_tab"
    by (rule trim_plain) (simp_all add: text_with_tab_def js_space_def)
  with 1 show ?thesis by simp
qed

lemma extractSummary_computes_space:
  "truthy (Some text_with_space)
   \<and> 200 < length (trim (stripTags text_with_space))
   \<and> trim (stripTags text_with_space) ! 160 = SP
   \<and> extractSummary (Some text_with_space) = replicate 160 0x41 @ ellipsis"
proof -
  have tr: "truthy (Some text_with_space)" by (simp add: text_with_space_def)
  have len: "200 < length (trim (stripTags text_with_space))"
    by (simp add: text_with_space_plain) (simp add: text_with_space_def)
  have at: "trim (stripTags text_with_space) ! 160 = SP"
    by (simp add: text_with_space_plain) (simp add: text_with_space_def nth_append SP_def)
  have after: "\<forall>j. 160 < j \<and> j < 200 \<longrightarrow> trim (stripTags text_with_space) ! j \<noteq> SP"
  proof (intro allI impI)
    fix j :: nat
    assume j: "160 < j \<and> j < 200"
    then have "j - 161 < (60 :: nat)" by arith
    then have "replicate 60 (0x41 :: 16 word) ! (j - 161) = 0x41" by (rule nth_replicate)
    with j have "text_with_space ! j = 0x41"
      by (simp add: text_with_space_def nth_append nth_Cons')
    then show "trim (stripTags text_with_space) ! j \<noteq> SP"
      by (simp add: text_with_space_plain SP_def)
  qed
  have tk: "take 160 (trim (stripTags text_with_space)) = replicate 160 0x41"
    by (simp add: text_with_space_plain) (simp add: text_with_space_def)
  from extractSummary_computes [of "Some text_with_space"] tr len
  have every: "\<forall>i. i < 200 \<and> trim (stripTags text_with_space) ! i = SP
            \<and> (\<forall>j. i < j \<and> j < 200 \<longrightarrow> trim (stripTags text_with_space) ! j \<noteq> SP) \<longrightarrow>
          extractSummary (Some text_with_space) =
            (if 150 < i then take i (trim (stripTags text_with_space))
             else take 200 (trim (stripTags text_with_space))) @ ellipsis"
    by (simp add: Let_def)
  from every [rule_format, of 160] at after
  have "extractSummary (Some text_with_space)
          = take 160 (trim (stripTags text_with_space)) @ ellipsis"
    by simp
  with tr len at tk show ?thesis by simp
qed

text \<open>
  Claim C5. In a text of more than 200 code units the cut is to fall at the last
  whitespace boundary of the first 200 code units when that boundary lies beyond position
  150; the comment above the cut in the source says the same (cut at the last complete
  word before 200 characters). The source looks for the boundary with
  \<open>lastIndexOf(' ')\<close>, which finds U+0020 only, and so misses every other whitespace.
  For 180 letters, a tab and 40 letters, the tab is whitespace and stands at index 180,
  beyond 150, and no tag or outer whitespace is there to strip; the source returns the
  first 200 code units, cut inside the second word, and not the first 180.
\<close>

theorem extractSummary_whitespace_divergence:
  "js_space 0x09
   \<and> trim (stripTags text_with_tab) = text_with_tab
   \<and> length text_with_tab = 221
   \<and> text_with_tab ! 180 = 0x09
   \<and> extractSummary (Some text_with_tab) = replicate 180 0x41 @ [0x09] @ replicate 19 0x41 @ ellipsis
   \<and> extractSummary (Some text_with_tab) \<noteq> take 180 text_with_tab @ ellipsis"
proof -
  have ws: "js_space 0x09" by (simp add: js_space_def)
  have len: "length text_with_tab = 221" by (simp add: text_with_tab_def)
  have at: "text_with_tab ! 180 = 0x09" by (simp add: text_with_tab_def nth_append)
  have tr: "truthy (Some text_with_tab)" by (simp add: text_with_tab_def)
  have long: "200 < length (trim (stripTags (the (Some text_with_tab))))"
    by (simp add: text_with_tab_plain len)
  have tk: "take 200 text_with_tab = replicate 180 0x41 @ [0x09] @ replicate 19 0x41"
    by (simp add: text_with_tab_def)
  have "SP \<notin> set (take 200 text_with_tab)" unfolding tk by (auto simp: SP_def)
  then have li: "lastIndexOf (take 200 text_with_tab) SP = - 1" by (rule lastIndexOf_absent)
  have "extractSummary (Some text_with_tab) = take 200 text_with_tab @ ellipsis"
    using extractSummary_long [OF tr long] by (simp add: text_with_tab_plain li)
  then have res: "extractSummary (Some text_with_tab)
               = replicate 180 0x41 @ [0x09] @ replicate 19 0x41 @ ellipsis"
    by (simp add: tk)
  have "length (extractSummary (Some text_with_tab)) = 203"
    by (simp add: res length_ellipsis)
  moreover have "length (take 180 text_with_tab @ ellipsis) = 183"
    by (simp add: len length_ellipsis)
  ultimately have "extractSummary (Some text_with_tab) \<noteq> take 180 text_with_tab @ ellipsis"
    by auto
  with ws text_with_tab_plain len at res show ?thesis by simp
qed

section \<open>Sanitizing\<close>

lemma canon_LT: "canon c = LT \<longleftrightarrow> c = LT"
  unfolding canon_def LT_def by (auto; unat_arith)


lemma ci_prefix_not_LT: "c \<noteq> LT \<Longrightarrow> \<not> ci_prefix (LT # cl) (c # cs)"
  using canon_LT [of c] canon_LT [of LT] by auto





lemma ci_prefix_self: "ci_prefix p (p @ r)"
  by (induction p) auto

lemma ci_prefix_stops_at_LT:
  "\<forall>q\<in>set p. canon q \<noteq> LT \<Longrightarrow> ci_prefix p (xs @ LT # ys) \<Longrightarrow> ci_prefix p xs"
proof (induction xs arbitrary: p)
  case Nil
  then show ?case using canon_LT [of LT] by (cases p) auto
next
  case (Cons x xs)
  then show ?case by (cases p) auto
qed

lemma ci_prefix_no_straddle:
  "\<forall>q\<in>set ps. canon q \<noteq> LT \<Longrightarrow> ci_prefix (LT # ps) ((x # xs) @ LT # ys) \<Longrightarrow>
   ci_prefix (LT # ps) (x # xs)"
  using ci_prefix_stops_at_LT [of ps xs ys] by simp

lemma firstClosing_append:
  "\<forall>q\<in>set cl. canon q \<noteq> LT \<Longrightarrow> \<not> ci_occurs (LT # cl) body \<Longrightarrow>
   firstClosing (LT # cl) (body @ (LT # cl) @ post) = Some post"
proof (induction body)
  case Nil
  have "ci_prefix (LT # cl) ((LT # cl) @ post)" by (rule ci_prefix_self)
  then show ?case by simp
next
  case (Cons b bs)
  from Cons.prems(2) have nb: "\<not> ci_prefix (LT # cl) (b # bs)" and nbs: "\<not> ci_occurs (LT # cl) bs"
    by simp_all
  have "\<not> ci_prefix (LT # cl) ((b # bs) @ LT # (cl @ post))"
    using ci_prefix_no_straddle [OF Cons.prems(1)] nb by blast
  then have "\<not> ci_prefix (LT # cl) (b # (bs @ (LT # cl) @ post))" by simp
  then have "firstClosing (LT # cl) (b # (bs @ (LT # cl) @ post))
               = firstClosing (LT # cl) (bs @ (LT # cl) @ post)"
    by (simp only: firstClosing.simps if_False)
  then show ?case using Cons.IH [OF Cons.prems(1) nbs] by (simp del: ci_prefix.simps firstClosing.simps)
qed

lemma removeTagPairs_prefix:
  "\<forall>q\<in>set ps. canon q \<noteq> LT \<Longrightarrow> close \<noteq> [] \<Longrightarrow> \<not> ci_occurs (LT # ps) pre \<Longrightarrow>
   removeTagPairs (LT # ps) close (pre @ LT # ys) = pre @ removeTagPairs (LT # ps) close (LT # ys)"
proof (induction pre)
  case Nil
  then show ?case by simp
next
  case (Cons x xs)
  from Cons.prems(3) have nx: "\<not> ci_prefix (LT # ps) (x # xs)" and nxs: "\<not> ci_occurs (LT # ps) xs"
    by simp_all
  have "\<not> ci_prefix (LT # ps) ((x # xs) @ LT # ys)"
    using ci_prefix_no_straddle [OF Cons.prems(1)] nx by blast
  then have "\<not> ci_prefix (LT # ps) (x # xs @ LT # ys)" by simp
  then have "tagPairAt (LT # ps) close (x # xs @ LT # ys) = None"
    by (simp only: tagPairAt_def simp_thms if_False)
  then show ?case using Cons.IH [OF Cons.prems(1) Cons.prems(2) nxs] Cons.prems(2)
    by (simp del: ci_prefix.simps)
qed

lemma tagPairAt_block:
  assumes "\<forall>q\<in>set cl. canon q \<noteq> LT" and "\<not> ci_occurs (LT # cl) body"
  shows "tagPairAt opn (LT # cl) (opn @ GT # body @ (LT # cl) @ post) = Some post"
proof -
  have p: "ci_prefix opn (opn @ GT # body @ (LT # cl) @ post)" by (rule ci_prefix_self)
  have b: "boundary (GT # body @ (LT # cl) @ post)"
    by (simp add: boundary_def word_char_def GT_def)
  have "GT \<noteq> LT" by (simp add: GT_def LT_def)
  then have "\<not> ci_prefix (LT # cl) (GT # body)" by (rule ci_prefix_not_LT)
  with assms(2) have "\<not> ci_occurs (LT # cl) (GT # body)" by simp
  from firstClosing_append [OF assms(1) this, of post]
  have "firstClosing (LT # cl) (GT # body @ (LT # cl) @ post) = Some post" by simp
  with p b show ?thesis by (simp add: tagPairAt_def)
qed

lemma removeTagPairs_block:
  assumes "\<forall>q\<in>set ps. canon q \<noteq> LT" and "\<forall>q\<in>set cl. canon q \<noteq> LT"
    and "\<not> ci_occurs (LT # ps) pre" and "\<not> ci_occurs (LT # cl) body"
  shows "removeTagPairs (LT # ps) (LT # cl) (pre @ (LT # ps) @ GT # body @ (LT # cl) @ post)
           = pre @ removeTagPairs (LT # ps) (LT # cl) post"
proof -
  have "removeTagPairs (LT # ps) (LT # cl) (pre @ LT # (ps @ GT # body @ (LT # cl) @ post))
          = pre @ removeTagPairs (LT # ps) (LT # cl) (LT # (ps @ GT # body @ (LT # cl) @ post))"
    using assms(1) _ assms(3) by (rule removeTagPairs_prefix) simp
  moreover have "tagPairAt (LT # ps) (LT # cl) ((LT # ps) @ GT # body @ (LT # cl) @ post) = Some post"
    using assms(2) assms(4) by (rule tagPairAt_block)
  ultimately show ?thesis by simp
qed


lemma script_tags:
  "asc ''<script'' = LT # asc ''script''"
  "asc ''</script>'' = LT # asc ''/script>''"
  "asc ''<script>'' = (LT # asc ''script'') @ [GT]"
  "\<forall>q\<in>set (asc ''script''). canon q \<noteq> LT"
  "\<forall>q\<in>set (asc ''/script>''). canon q \<noteq> LT"
  by (simp_all add: asc_def LT_def GT_def canon_def)



lemma script_block_removed:
  assumes "\<not> ci_occurs (asc ''<script'') pre" and "\<not> ci_occurs (asc ''</script>'') body"
  shows "removeTagPairs (asc ''<script'') (asc ''</script>'')
           (pre @ asc ''<script>'' @ body @ asc ''</script>'' @ post)
         = pre @ removeTagPairs (asc ''<script'') (asc ''</script>'') post"
proof -
  have "removeTagPairs (LT # asc ''script'') (LT # asc ''/script>'')
          (pre @ (LT # asc ''script'') @ GT # body @ (LT # asc ''/script>'') @ post)
        = pre @ removeTagPairs (LT # asc ''script'') (LT # asc ''/script>'') post"
    using script_tags(4) script_tags(5) assms [unfolded script_tags(1) script_tags(2)]
    by (rule removeTagPairs_block)
  then show ?thesis unfolding script_tags(1) script_tags(2) script_tags(3) by simp
qed

















































end
